theory Spec2Isabelle
  imports Main "HOL-Library.Word"
begin

section \<open>Data model of \<open>brpc::SimpleDataPool\<close>\<close>

text \<open>
  The embedding follows \<^verbatim>\<open>src/brpc/simple_data_pool.h\<close> in a single thread: the mutex
  is not modelled, and the unlocked first test of \<^verbatim>\<open>Reserve\<close> and \<^verbatim>\<open>Borrow\<close>
  coincides with the test repeated under the lock.

  A \<^verbatim>\<open>void*\<close> is an address, \<open>0\<close> being \<^verbatim>\<open>NULL\<close>. A \<^verbatim>\<open>const DataFactory*\<close> is
  \<open>None\<close> for \<^verbatim>\<open>NULL\<close> and \<open>Some f\<close> for the factory object \<open>f\<close>. The three \<^verbatim>\<open>unsigned\<close>
  members are 32-bit words, so \<open>+\<close> and \<open>*\<close> wrap and \<open>div\<close>, \<open>\<le>\<close>, \<open>max\<close> are unsigned.
  Byte counts such as \<^verbatim>\<open>new_cap * sizeof(void*)\<close> are computed in \<^verbatim>\<open>size_t\<close>, which is
  taken to be wider than 35 bits (LP64), so they do not wrap.
\<close>

type_synonym handle = nat
type_synonym factory_ref = nat

text \<open>
  A slot of the \<^verbatim>\<open>void**\<close> buffer is \<open>None\<close> while it still holds what \<^verbatim>\<open>malloc\<close> left
  there. The buffer pointer \<^verbatim>\<open>_pool\<close> is \<open>None\<close> for \<^verbatim>\<open>NULL\<close>, else the allocated slots,
  whose number is the length of the list.
\<close>

type_synonym slot = "handle option"
type_synonym buffer = "slot list"

record pool =
  m_capacity :: "32 word"
  m_size :: "32 word"
  m_ncreated :: "32 word"
  m_pool :: "buffer option"
  m_factory :: "factory_ref option"

text \<open>
  Modelled from the spec: \<^verbatim>\<open>brpc/data_factory.h\<close> (the class \<^verbatim>\<open>DataFactory\<close>) is not
  part of the sources. Its contract is the one of the spec's section 6:
  \<^verbatim>\<open>CreateData()\<close> returns a new handle or \<^verbatim>\<open>NULL\<close>, \<^verbatim>\<open>DestroyData(h)\<close> releases a
  handle. What \<^verbatim>\<open>CreateData\<close> returns is outside the pool's control, and so is whether
  \<^verbatim>\<open>malloc\<close> succeeds: both are read from an environment, indexed by the number of
  calls made so far. Every call on a factory is recorded in a trace, oldest first.
\<close>

datatype event = CreateData factory_ref handle | DestroyData factory_ref handle

record env =
  create_result :: "factory_ref \<Rightarrow> nat \<Rightarrow> handle"
  malloc_ok :: "nat \<Rightarrow> bool"

record world =
  n_create :: nat
  n_malloc :: nat
  trace :: "event list"

text \<open>
  Undefined behaviour of the C++ is a fault: a call through a null factory pointer, an
  access through a null buffer pointer, an access beyond the allocated slots, and the
  use of a slot that was never written.
\<close>

datatype fault = NullFactory | NullPool | OutOfBounds | Indeterminate

section \<open>Operations\<close>

text \<open>The constructor, lines 46-53.\<close>

definition SimpleDataPool :: "factory_ref option \<Rightarrow> pool" where
  "SimpleDataPool factory =
     \<lparr>m_capacity = 0, m_size = 0, m_ncreated = 0, m_pool = None, m_factory = factory\<rparr>"

text \<open>\<^verbatim>\<open>_factory->CreateData()\<close> and \<^verbatim>\<open>factory->DestroyData(data)\<close>.\<close>

definition call_CreateData ::
  "env \<Rightarrow> factory_ref option \<Rightarrow> world \<Rightarrow> fault + (handle \<times> world)" where
  "call_CreateData e fo w =
     (case fo of
        None \<Rightarrow> Inl NullFactory
      | Some f \<Rightarrow>
          (let data = create_result e f (n_create w)
           in Inr (data, w\<lparr>n_create := n_create w + 1,
                            trace := trace w @ [CreateData f data]\<rparr>)))"

definition call_DestroyData ::
  "factory_ref option \<Rightarrow> handle \<Rightarrow> world \<Rightarrow> fault + world" where
  "call_DestroyData fo data w =
     (case fo of
        None \<Rightarrow> Inl NullFactory
      | Some f \<Rightarrow> Inr (w\<lparr>trace := trace w @ [DestroyData f data]\<rparr>))"

text \<open>\<^verbatim>\<open>saved_pool[i]\<close> and \<^verbatim>\<open>_pool[--_size]\<close>: reading slot \<open>i\<close> of a buffer.\<close>

definition read_slot :: "buffer option \<Rightarrow> nat \<Rightarrow> fault + handle" where
  "read_slot bo i =
     (case bo of
        None \<Rightarrow> Inl NullPool
      | Some b \<Rightarrow>
          (if i < length b
           then (case b ! i of None \<Rightarrow> Inl Indeterminate | Some h \<Rightarrow> Inr h)
           else Inl OutOfBounds))"

text \<open>\<^verbatim>\<open>_pool[_size++] = data\<close>, lines 113 and 150.\<close>

definition push_slot :: "handle \<Rightarrow> pool \<Rightarrow> fault + pool" where
  "push_slot data p =
     (case m_pool p of
        None \<Rightarrow> Inl NullPool
      | Some b \<Rightarrow>
          (if unat (m_size p) < length b
           then Inr (p\<lparr>m_pool := Some (b[unat (m_size p) := Some data]),
                       m_size := m_size p + 1\<rparr>)
           else Inl OutOfBounds))"

text \<open>
  \<^verbatim>\<open>memcpy(new_pool, _pool, _capacity * sizeof(void*))\<close>: the first \<open>k\<close> slots of
  \<open>src\<close> overwrite those of \<open>dst\<close>; both buffers must have them.
\<close>

definition memcpy_slots :: "buffer \<Rightarrow> buffer \<Rightarrow> nat \<Rightarrow> fault + buffer" where
  "memcpy_slots dst src k =
     (if k \<le> length src \<and> k \<le> length dst
      then Inr (take k src @ drop k dst)
      else Inl OutOfBounds)"

text \<open>
  The tail shared by both resizes (lines 99-105 and 143-148), after \<^verbatim>\<open>malloc\<close> has
  returned a buffer of \<open>new_cap\<close> fresh slots: copy if there is an old buffer, free it,
  and install the new capacity and buffer.
\<close>

definition install_buffer :: "32 word \<Rightarrow> pool \<Rightarrow> fault + pool" where
  "install_buffer new_cap p =
     (let new_pool = replicate (unat new_cap) None
      in case m_pool p of
           None \<Rightarrow> Inr (p\<lparr>m_capacity := new_cap, m_pool := Some new_pool\<rparr>)
         | Some old \<Rightarrow>
             (case memcpy_slots new_pool old (unat (m_capacity p)) of
                Inl x \<Rightarrow> Inl x
              | Inr np \<Rightarrow> Inr (p\<lparr>m_capacity := new_cap, m_pool := Some np\<rparr>)))"

subsection \<open>Reset, lines 60-83\<close>

function destroy_loop ::
  "factory_ref \<Rightarrow> buffer \<Rightarrow> 32 word \<Rightarrow> 32 word \<Rightarrow> world \<Rightarrow> fault + world" where
  "destroy_loop sf sp i n w =
     (if i < n
      then (case read_slot (Some sp) (unat i) of
              Inl x \<Rightarrow> Inl x
            | Inr h \<Rightarrow>
                (case call_DestroyData (Some sf) h w of
                   Inl x \<Rightarrow> Inl x
                 | Inr w' \<Rightarrow> destroy_loop sf sp (i + 1) n w'))
      else Inr w)"
  by pat_completeness auto
termination
proof (relation "measure (\<lambda>(sf, sp, i, n, w). unat n - unat i)")
  show "wf (measure (\<lambda>(sf :: factory_ref, sp :: buffer, i :: 32 word, n :: 32 word,
                      w :: world). unat n - unat i))"
    by simp
next
  fix sf :: factory_ref and sp :: buffer and i n :: "32 word" and w w' :: world
  assume "i < n"
  then have "unat n - unat (i + 1) < unat n - unat i"
    by unat_arith
  then show "((sf, sp, i + 1, n, w'), sf, sp, i, n, w)
             \<in> measure (\<lambda>(sf, sp, i, n, w). unat n - unat i)"
    by simp
qed

definition Reset :: "factory_ref option \<Rightarrow> pool \<Rightarrow> world \<Rightarrow> fault + (pool \<times> world)" where
  "Reset factory p w =
     (let saved_size = m_size p;
          saved_pool = m_pool p;
          saved_factory = m_factory p;
          p' = p\<lparr>m_capacity := 0, m_size := 0, m_ncreated := 0,
                 m_pool := None, m_factory := factory\<rparr>
      in case saved_pool of
           None \<Rightarrow> Inr (p', w)
         | Some sp \<Rightarrow>
             (case saved_factory of
                None \<Rightarrow> Inr (p', w)
              | Some sf \<Rightarrow>
                  (case destroy_loop sf sp 0 saved_size w of
                     Inl x \<Rightarrow> Inl x
                   | Inr w' \<Rightarrow> Inr (p', w'))))"

subsection \<open>Reserve, lines 85-115\<close>

definition Reserve_new_cap :: "32 word \<Rightarrow> 32 word \<Rightarrow> 32 word" where
  "Reserve_new_cap cap n = max (cap * 3 div 2) n"

function reserve_loop ::
  "env \<Rightarrow> 32 word \<Rightarrow> 32 word \<Rightarrow> pool \<Rightarrow> world \<Rightarrow> fault + (pool \<times> world)" where
  "reserve_loop e i n p w =
     (if i < n
      then (case call_CreateData e (m_factory p) w of
              Inl x \<Rightarrow> Inl x
            | Inr (data, w') \<Rightarrow>
                (if data = 0 then Inr (p, w')
                 else (case push_slot data (p\<lparr>m_ncreated := m_ncreated p + 1\<rparr>) of
                         Inl x \<Rightarrow> Inl x
                       | Inr p' \<Rightarrow> reserve_loop e (i + 1) n p' w')))
      else Inr (p, w))"
  by pat_completeness auto
termination
proof (relation "measure (\<lambda>(e, i, n, p, w). unat n - unat i)")
  show "wf (measure (\<lambda>(e :: env, i :: 32 word, n :: 32 word, p :: pool, w :: world).
                      unat n - unat i))"
    by simp
next
  fix e :: env and i n :: "32 word" and p p' :: pool and w w' :: world
  assume "i < n"
  then have "unat n - unat (i + 1) < unat n - unat i"
    by unat_arith
  then show "((e, i + 1, n, p', w'), e, i, n, p, w)
             \<in> measure (\<lambda>(e, i, n, p, w). unat n - unat i)"
    by simp
qed

definition Reserve :: "env \<Rightarrow> 32 word \<Rightarrow> pool \<Rightarrow> world \<Rightarrow> fault + (pool \<times> world)" where
  "Reserve e n p w =
     (if m_capacity p \<ge> n then Inr (p, w)
      else
        (let new_cap = Reserve_new_cap (m_capacity p) n;
             w1 = w\<lparr>n_malloc := n_malloc w + 1\<rparr>
         in if \<not> malloc_ok e (n_malloc w) then Inr (p, w1)
            else (case install_buffer new_cap p of
                    Inl x \<Rightarrow> Inl x
                  | Inr p' \<Rightarrow> reserve_loop e (m_capacity p) n p' w1)))"

subsection \<open>Borrow, lines 117-129\<close>

definition Borrow :: "env \<Rightarrow> pool \<Rightarrow> world \<Rightarrow> fault + (handle \<times> pool \<times> world)" where
  "Borrow e p w =
     (if m_size p \<noteq> 0
      then (case read_slot (m_pool p) (unat (m_size p - 1)) of
              Inl x \<Rightarrow> Inl x
            | Inr h \<Rightarrow> Inr (h, p\<lparr>m_size := m_size p - 1\<rparr>, w))
      else (case call_CreateData e (m_factory p) w of
              Inl x \<Rightarrow> Inl x
            | Inr (data, w') \<Rightarrow>
                Inr (data,
                     if data \<noteq> 0 then p\<lparr>m_ncreated := m_ncreated p + 1\<rparr> else p,
                     w')))"

subsection \<open>Return, lines 131-152\<close>

definition Return_new_cap :: "32 word \<Rightarrow> 32 word" where
  "Return_new_cap cap = (if cap = 0 then 128 else cap * 3 div 2)"

definition Return :: "env \<Rightarrow> handle \<Rightarrow> pool \<Rightarrow> world \<Rightarrow> fault + (pool \<times> world)" where
  "Return e data p w =
     (if data = 0 then Inr (p, w)
      else if m_capacity p = m_size p
      then
        (let new_cap = Return_new_cap (m_capacity p);
             w1 = w\<lparr>n_malloc := n_malloc w + 1\<rparr>
         in if \<not> malloc_ok e (n_malloc w)
            then (case call_DestroyData (m_factory p) data w1 of
                    Inl x \<Rightarrow> Inl x
                  | Inr w' \<Rightarrow> Inr (p, w'))
            else (case install_buffer new_cap p of
                    Inl x \<Rightarrow> Inl x
                  | Inr p' \<Rightarrow>
                      (case push_slot data p' of
                         Inl x \<Rightarrow> Inl x
                       | Inr p'' \<Rightarrow> Inr (p'', w1))))
      else (case push_slot data p of
              Inl x \<Rightarrow> Inl x
            | Inr p' \<Rightarrow> Inr (p', w)))"

subsection \<open>stat, lines 154-157\<close>

record Stat =
  nfree :: "32 word"
  ncreated :: "32 word"

definition stat :: "pool \<Rightarrow> Stat" where
  "stat p = \<lparr>nfree = m_size p, ncreated = m_ncreated p\<rparr>"

section \<open>Sequences of operations\<close>

datatype op = OpReserve "32 word" | OpBorrow | OpReturn handle

fun step :: "env \<Rightarrow> op \<Rightarrow> pool \<times> world \<Rightarrow> fault + (pool \<times> world)" where
  "step e (OpReserve n) (p, w) = Reserve e n p w"
| "step e OpBorrow (p, w) =
     (case Borrow e p w of Inl x \<Rightarrow> Inl x | Inr (h, p', w') \<Rightarrow> Inr (p', w'))"
| "step e (OpReturn h) (p, w) = Return e h p w"

fun run :: "env \<Rightarrow> op list \<Rightarrow> pool \<times> world \<Rightarrow> fault + (pool \<times> world)" where
  "run e [] s = Inr s"
| "run e (x # xs) s = (case step e x s of Inl x \<Rightarrow> Inl x | Inr s' \<Rightarrow> run e xs s')"

section \<open>Vocabulary of the properties\<close>

text \<open>The bank: the handles in the slots \<open>[0, size)\<close>, in index order.\<close>

fun slot_handle :: "slot \<Rightarrow> handle" where
  "slot_handle None = 0"
| "slot_handle (Some h) = h"

definition bank :: "pool \<Rightarrow> handle list" where
  "bank p =
     (case m_pool p of
        None \<Rightarrow> []
      | Some b \<Rightarrow> map slot_handle (take (unat (m_size p)) b))"

text \<open>
  The invariant of the data model: \<open>size \<le> capacity\<close>, the buffer has \<open>capacity\<close>
  slots (none when it is null), and every slot below \<open>size\<close> holds a non-null handle.
\<close>

fun slot_live :: "slot \<Rightarrow> bool" where
  "slot_live None = False"
| "slot_live (Some h) = (h \<noteq> 0)"

definition pool_inv :: "pool \<Rightarrow> bool" where
  "pool_inv p =
     (m_size p \<le> m_capacity p \<and>
      (case m_pool p of
         None \<Rightarrow> m_capacity p = 0
       | Some b \<Rightarrow>
           length b = unat (m_capacity p) \<and>
           list_all slot_live (take (unat (m_size p)) b)))"

text \<open>The number of \<^verbatim>\<open>CreateData\<close> calls of a trace that produced a handle.\<close>

fun produced :: "event \<Rightarrow> bool" where
  "produced (CreateData f h) = (h \<noteq> 0)"
| "produced (DestroyData f h) = False"

definition created_ok :: "event list \<Rightarrow> nat" where
  "created_ok evs = length (filter produced evs)"

text \<open>What the statistics report, beside what the trace says was constructed.\<close>

fun accounting :: "pool \<times> world \<Rightarrow> Stat \<times> nat" where
  "accounting (p, w) = (stat p, created_ok (trace w))"

text \<open>
  Concrete environments for the examples: a factory whose \<open>k\<close>-th handle is \<open>100 + k\<close>,
  with an allocator that always succeeds, or one that always fails.
\<close>

definition env_ok :: env where
  "env_ok = \<lparr>create_result = (\<lambda>f k. 100 + k), malloc_ok = (\<lambda>k. True)\<rparr>"

definition env_nomem :: env where
  "env_nomem = \<lparr>create_result = (\<lambda>f k. 100 + k), malloc_ok = (\<lambda>k. False)\<rparr>"

definition world0 :: world where
  "world0 = \<lparr>n_create = 0, n_malloc = 0, trace = []\<rparr>"

section \<open>Auxiliary facts\<close>

subsection \<open>Slots and buffers\<close>

lemma unat_succ_of_less: "i < n \<Longrightarrow> unat (i + 1) = Suc (unat i)" for i n :: "32 word"
  by unat_arith

lemma pool_inv_buffer:
  assumes "pool_inv p" and "m_size p < m_capacity p"
  obtains b where "m_pool p = Some b" and "length b = unat (m_capacity p)"
    and "list_all slot_live (take (unat (m_size p)) b)"
proof (cases "m_pool p")
  case None
  with assms show ?thesis by (simp add: pool_inv_def)
next
  case (Some b)
  with assms that show ?thesis by (simp add: pool_inv_def)
qed

lemma take_Suc_update:
  "k < length b \<Longrightarrow> take (Suc k) (b[k := x]) = take k b @ [x]"
  by (simp add: take_Suc_conv_app_nth)

lemma push_slot_ok:
  assumes inv: "pool_inv p" and lt: "m_size p < m_capacity p"
  shows "\<exists>p'. push_slot h p = Inr p' \<and> m_size p' = m_size p + 1 \<and>
           m_capacity p' = m_capacity p \<and> m_ncreated p' = m_ncreated p \<and>
           m_factory p' = m_factory p \<and> bank p' = bank p @ [h] \<and>
           (h \<noteq> 0 \<longrightarrow> pool_inv p')"
proof -
  from inv lt obtain b where b: "m_pool p = Some b" "length b = unat (m_capacity p)"
    "list_all slot_live (take (unat (m_size p)) b)"
    by (rule pool_inv_buffer)
  from lt have k: "unat (m_size p) < length b"
    by (simp add: b word_less_nat_alt)
  from lt have suc: "unat (m_size p + 1) = Suc (unat (m_size p))"
    by (rule unat_succ_of_less)
  let ?p' = "p\<lparr>m_pool := Some (b[unat (m_size p) := Some h]), m_size := m_size p + 1\<rparr>"
  have 1: "push_slot h p = Inr ?p'"
    using b k by (simp add: push_slot_def)
  have 2: "bank ?p' = bank p @ [h]"
    using b k by (simp add: bank_def suc take_Suc_update)
  have le: "m_size p + 1 \<le> m_capacity p"
    using lt by (rule inc_le)
  have 3: "pool_inv ?p'" if "h \<noteq> 0"
    using b k that le by (simp add: pool_inv_def suc take_Suc_update)
  show ?thesis
    using 1 2 3 by simp
qed

lemma install_buffer_ok:
  assumes inv: "pool_inv p" and le: "m_capacity p \<le> new_cap"
  shows "\<exists>p'. install_buffer new_cap p = Inr p' \<and> m_size p' = m_size p \<and>
           m_capacity p' = new_cap \<and> m_ncreated p' = m_ncreated p \<and>
           m_factory p' = m_factory p \<and> bank p' = bank p \<and> pool_inv p'"
proof (cases "m_pool p")
  case None
  with inv have z: "m_capacity p = 0" "m_size p = 0"
    by (auto simp: pool_inv_def)
  with None show ?thesis
    by (simp add: install_buffer_def bank_def pool_inv_def)
next
  case (Some b)
  with inv have b: "length b = unat (m_capacity p)"
    "list_all slot_live (take (unat (m_size p)) b)" "m_size p \<le> m_capacity p"
    by (simp_all add: pool_inv_def)
  from le have c: "unat (m_capacity p) \<le> unat new_cap"
    by (simp add: word_le_nat_alt)
  from b(3) have s: "unat (m_size p) \<le> unat (m_capacity p)"
    by (simp add: word_le_nat_alt)
  from b(3) le have sn: "m_size p \<le> new_cap"
    by simp
  let ?np = "take (unat (m_capacity p)) b @ drop (unat (m_capacity p)) (replicate (unat new_cap) None)"
  have m: "memcpy_slots (replicate (unat new_cap) None) b (unat (m_capacity p)) = Inr ?np"
    using b c by (simp add: memcpy_slots_def)
  have t: "take (unat (m_size p)) ?np = take (unat (m_size p)) b"
    using b s by simp
  have l: "length ?np = unat new_cap"
    using b c by simp
  have i: "install_buffer new_cap p = Inr (p\<lparr>m_capacity := new_cap, m_pool := Some ?np\<rparr>)"
    using Some m by (simp add: install_buffer_def)
  show ?thesis
    using Some b sn t l unfolding i by (simp add: bank_def pool_inv_def del: take_append)
qed


subsection \<open>Iteration\<close>

text \<open>
  Each loop is unfolded one iteration at a time, by induction on the number of
  iterations left.
\<close>

declare reserve_loop.simps [simp del] destroy_loop.simps [simp del]

lemma destroy_loop_ok:
  assumes "unat n \<le> length sp" and "list_all slot_live (take (unat n) sp)" and "i \<le> n"
  shows "destroy_loop sf sp i n w =
           Inr (w\<lparr>trace := trace w @
                  map (\<lambda>s. DestroyData sf (slot_handle s)) (drop (unat i) (take (unat n) sp))\<rparr>)"
  using assms(3)
proof (induction m \<equiv> "unat n - unat i" arbitrary: i w)
  case 0
  then have "\<not> i < n"
    by (simp add: word_less_nat_alt)
  moreover from 0 have "unat n \<le> unat i"
    by simp
  ultimately show ?case
    using assms(1) by (simp add: destroy_loop.simps [of sf sp i n w])
next
  case (Suc m)
  then have lt: "i < n"
    by (simp add: word_less_nat_alt)
  then have suc: "unat (i + 1) = Suc (unat i)"
    by (rule unat_succ_of_less)
  from lt have k: "unat i < unat n"
    by (simp add: word_less_nat_alt)
  with assms(1) have kl: "unat i < length sp"
    by simp
  from assms(2) k kl have "slot_live (sp ! unat i)"
    by (simp add: list_all_length)
  then obtain h where h: "sp ! unat i = Some h"
    by (cases "sp ! unat i") simp_all
  have ih: "destroy_loop sf sp (i + 1) n w' =
      Inr (w'\<lparr>trace := trace w' @
             map (\<lambda>s. DestroyData sf (slot_handle s)) (drop (unat (i + 1)) (take (unat n) sp))\<rparr>)"
    for w'
    using Suc.hyps(2) lt suc by (intro Suc.hyps(1)) (simp_all add: inc_le)
  have d: "drop (unat i) (take (unat n) sp) = Some h # drop (Suc (unat i)) (take (unat n) sp)"
    using k kl h assms(1) by (simp add: Cons_nth_drop_Suc [symmetric])
  show ?case
    using lt kl h
    by (simp add: destroy_loop.simps [of sf sp i n w] read_slot_def call_DestroyData_def ih suc d)
qed

lemma bank_ncreated [simp]: "bank (p\<lparr>m_ncreated := x\<rparr>) = bank p"
  by (simp add: bank_def cong: option.case_cong)

lemma pool_inv_ncreated [simp]: "pool_inv (p\<lparr>m_ncreated := x\<rparr>) = pool_inv p"
  by (simp add: pool_inv_def cong: option.case_cong)

lemma upt_shift: "[a ..< a + Suc m] = a # [Suc a ..< Suc a + m]"
  by (simp add: upt_conv_Cons)

lemma reserve_loop_ok:
  assumes ok: "\<forall>k. create_result e f k \<noteq> 0"
  shows "pool_inv p \<Longrightarrow> i \<le> n \<Longrightarrow> unat (m_size p) + (unat n - unat i) \<le> unat (m_capacity p) \<Longrightarrow>
         m_factory p = Some f \<Longrightarrow>
         \<exists>p' w'. reserve_loop e i n p w = Inr (p', w') \<and> pool_inv p' \<and>
           m_size p' = m_size p + (n - i) \<and> m_capacity p' = m_capacity p \<and>
           m_ncreated p' = m_ncreated p + (n - i) \<and> m_factory p' = m_factory p \<and>
           bank p' = bank p @ map (create_result e f) [n_create w ..< n_create w + (unat n - unat i)] \<and>
           trace w' = trace w @ map (\<lambda>k. CreateData f (create_result e f k))
                                   [n_create w ..< n_create w + (unat n - unat i)] \<and>
           n_create w' = n_create w + (unat n - unat i) \<and> n_malloc w' = n_malloc w"
proof (induction m \<equiv> "unat n - unat i" arbitrary: i p w)
  case 0
  then have "\<not> i < n" and "unat n - unat i = 0" and "n = i"
    by (simp_all add: word_less_nat_alt word_le_nat_alt word_unat_eq_iff)
  moreover from \<open>\<not> i < n\<close> have "reserve_loop e i n p w = Inr (p, w)"
    by (subst reserve_loop.simps) simp
  ultimately show ?case
    using 0 by simp
next
  case (Suc m)
  then have lt: "i < n"
    by (simp add: word_less_nat_alt)
  then have suc: "unat (i + 1) = Suc (unat i)"
    by (rule unat_succ_of_less)
  from Suc.hyps(2) suc have m: "unat n - unat (i + 1) = m" "unat n - unat i = Suc m"
    by simp_all
  let ?data = "create_result e f (n_create w)"
  let ?w1 = "w\<lparr>n_create := n_create w + 1, trace := trace w @ [CreateData f ?data]\<rparr>"
  let ?p1 = "p\<lparr>m_ncreated := m_ncreated p + 1\<rparr>"
  have c: "call_CreateData e (m_factory p) w = Inr (?data, ?w1)"
    using Suc.prems(4) by (simp add: call_CreateData_def Let_def)
  have nz: "?data \<noteq> 0"
    using ok by simp
  have inv1: "pool_inv ?p1"
    using Suc.prems(1) by simp
  have lt1: "m_size ?p1 < m_capacity ?p1"
    using Suc.prems(3) m by (simp add: word_less_nat_alt)
  from push_slot_ok [OF inv1 lt1, of ?data] nz obtain p2 where
    p2: "push_slot ?data ?p1 = Inr p2" "m_size p2 = m_size p + 1" "m_capacity p2 = m_capacity p"
      "m_ncreated p2 = m_ncreated p + 1" "m_factory p2 = m_factory p"
      "bank p2 = bank p @ [?data]" "pool_inv p2"
    by auto
  from lt1 have "unat (m_size p + 1) = Suc (unat (m_size p))"
    using unat_succ_of_less [of "m_size p" "m_capacity p"] by simp
  with Suc.prems(3) m have room: "unat (m_size p2) + (unat n - unat (i + 1)) \<le> unat (m_capacity p2)"
    by (simp add: p2)
  have "\<exists>p' w'. reserve_loop e (i + 1) n p2 ?w1 = Inr (p', w') \<and> pool_inv p' \<and>
           m_size p' = m_size p2 + (n - (i + 1)) \<and> m_capacity p' = m_capacity p2 \<and>
           m_ncreated p' = m_ncreated p2 + (n - (i + 1)) \<and> m_factory p' = m_factory p2 \<and>
           bank p' = bank p2 @ map (create_result e f)
                       [n_create ?w1 ..< n_create ?w1 + (unat n - unat (i + 1))] \<and>
           trace w' = trace ?w1 @ map (\<lambda>k. CreateData f (create_result e f k))
                       [n_create ?w1 ..< n_create ?w1 + (unat n - unat (i + 1))] \<and>
           n_create w' = n_create ?w1 + (unat n - unat (i + 1)) \<and> n_malloc w' = n_malloc ?w1"
    using m(1) lt p2 room Suc.prems(4)
    by (intro Suc.hyps(1)) (simp_all add: inc_le)
  then obtain p' w' where r: "reserve_loop e (i + 1) n p2 ?w1 = Inr (p', w')" "pool_inv p'"
      "m_size p' = m_size p2 + (n - (i + 1))" "m_capacity p' = m_capacity p2"
      "m_ncreated p' = m_ncreated p2 + (n - (i + 1))" "m_factory p' = m_factory p2"
      "bank p' = bank p2 @ map (create_result e f) [Suc (n_create w) ..< Suc (n_create w) + m]"
      "trace w' = trace ?w1 @ map (\<lambda>k. CreateData f (create_result e f k))
                       [Suc (n_create w) ..< Suc (n_create w) + m]"
      "n_create w' = Suc (n_create w) + m" "n_malloc w' = n_malloc w"
    using m(1) by auto
  have unfold: "reserve_loop e i n p w = reserve_loop e (i + 1) n p2 ?w1"
    using lt c nz p2(1) by (simp add: reserve_loop.simps [of e i n p w])
  show ?case
    unfolding unfold m(2) upt_shift
    using r p2 by simp
qed

subsection \<open>Borrow and Return\<close>

lemma bank_live:
  assumes "pool_inv p"
  shows "0 \<notin> set (bank p)" and "length (bank p) = unat (m_size p)"
proof -
  show "length (bank p) = unat (m_size p)"
    using assms by (auto simp: bank_def pool_inv_def word_le_nat_alt split: option.splits)
  have "slot_live s \<Longrightarrow> slot_handle s = 0 \<Longrightarrow> False" for s
    by (cases s) simp_all
  then show "0 \<notin> set (bank p)"
    using assms by (fastforce simp: bank_def pool_inv_def list_all_iff split: option.splits)
qed

lemma Borrow_hit:
  assumes inv: "pool_inv p" and nz: "m_size p \<noteq> 0"
  shows "Borrow e p w = Inr (last (bank p), p\<lparr>m_size := m_size p - 1\<rparr>, w)"
    and "pool_inv (p\<lparr>m_size := m_size p - 1\<rparr>)"
    and "bank (p\<lparr>m_size := m_size p - 1\<rparr>) = butlast (bank p)"
    and "last (bank p) \<noteq> 0"
    and "last (bank p) = bank p ! (unat (m_size p) - 1)"
proof -
  from nz have pos: "0 < m_size p"
    by (simp add: word_neq_0_conv)
  with inv have "0 < m_capacity p"
    by (auto simp: pool_inv_def)
  with inv obtain b where b: "m_pool p = Some b" "length b = unat (m_capacity p)"
      "list_all slot_live (take (unat (m_size p)) b)" "m_size p \<le> m_capacity p"
    by (cases "m_pool p") (auto simp: pool_inv_def)
  from nz have u: "unat (m_size p - 1) = unat (m_size p) - 1" and up: "0 < unat (m_size p)"
    by (simp_all add: unat_minus_one unat_gt_0)
  from b(4) have sl: "unat (m_size p) \<le> length b"
    by (simp add: b(2) word_le_nat_alt)
  with up have k: "unat (m_size p) - 1 < length b"
    by simp
  from b(3) up sl have "slot_live (b ! (unat (m_size p) - 1))"
    by (simp add: list_all_length)
  then obtain h where h: "b ! (unat (m_size p) - 1) = Some h" "h \<noteq> 0"
    by (cases "b ! (unat (m_size p) - 1)") simp_all
  have ne: "bank p \<noteq> []"
    using b up sl by (auto simp: bank_def)
  have l: "last (bank p) = h"
    using b up sl h by (simp add: bank_def last_conv_nth ne [unfolded bank_def b, simplified])
  show "Borrow e p w = Inr (last (bank p), p\<lparr>m_size := m_size p - 1\<rparr>, w)"
    using nz b k h l by (simp add: Borrow_def read_slot_def u)
  show "last (bank p) \<noteq> 0"
    using l h by simp
  have le: "m_size p - 1 \<le> m_capacity p"
    using b(4) nz by unat_arith
  have tk: "take (unat (m_size p) - 1) b = butlast (take (unat (m_size p)) b)"
    using sl by (simp add: butlast_take)
  have "set (take (unat (m_size p) - 1) b) \<subseteq> set (take (unat (m_size p)) b)"
    by (rule set_take_subset_set_take) simp
  with b(3) have "list_all slot_live (take (unat (m_size p) - 1) b)"
    by (auto simp: list_all_iff)
  then show "pool_inv (p\<lparr>m_size := m_size p - 1\<rparr>)"
    using b le by (simp add: pool_inv_def u)
  show "bank (p\<lparr>m_size := m_size p - 1\<rparr>) = butlast (bank p)"
    using b by (simp add: bank_def u tk [simplified] map_butlast)
  show "last (bank p) = bank p ! (unat (m_size p) - 1)"
    using ne bank_live(2) [OF inv] by (simp add: last_conv_nth)
qed

lemma Borrow_miss:
  assumes "m_size p = 0"
  shows "Borrow e p w =
    (case m_factory p of
       None \<Rightarrow> Inl NullFactory
     | Some f \<Rightarrow>
         Inr (create_result e f (n_create w),
              if create_result e f (n_create w) \<noteq> 0
              then p\<lparr>m_ncreated := m_ncreated p + 1\<rparr> else p,
              w\<lparr>n_create := n_create w + 1,
                trace := trace w @ [CreateData f (create_result e f (n_create w))]\<rparr>))"
  using assms by (simp add: Borrow_def call_CreateData_def Let_def split: option.splits)

lemma Return_banks:
  assumes inv: "pool_inv p" and h: "h \<noteq> 0"
    and room: "m_size p < m_capacity p \<or>
               (malloc_ok e (n_malloc w) \<and> m_capacity p < Return_new_cap (m_capacity p))"
  shows "\<exists>p'. Return e h p w =
             Inr (p', if m_capacity p = m_size p then w\<lparr>n_malloc := n_malloc w + 1\<rparr> else w) \<and>
           pool_inv p' \<and> bank p' = bank p @ [h] \<and> m_size p' = m_size p + 1 \<and>
           m_ncreated p' = m_ncreated p \<and> m_factory p' = m_factory p \<and>
           m_capacity p' = (if m_capacity p = m_size p then Return_new_cap (m_capacity p)
                            else m_capacity p)"
proof (cases "m_capacity p = m_size p")
  case False
  with inv have lt: "m_size p < m_capacity p"
    by (auto simp: pool_inv_def)
  from push_slot_ok [OF inv lt, of h] h False show ?thesis
    by (auto simp: Return_def)
next
  case True
  with room have mal: "malloc_ok e (n_malloc w)"
    and g: "m_capacity p < Return_new_cap (m_capacity p)"
    by auto
  from g have le: "m_capacity p \<le> Return_new_cap (m_capacity p)"
    by simp
  from install_buffer_ok [OF inv le] obtain q where
    q: "install_buffer (Return_new_cap (m_capacity p)) p = Inr q" "m_size q = m_size p"
      "m_capacity q = Return_new_cap (m_capacity p)" "m_ncreated q = m_ncreated p"
      "m_factory q = m_factory p" "bank q = bank p" "pool_inv q"
    by auto
  from g True q have lt: "m_size q < m_capacity q"
    by simp
  from push_slot_ok [OF q(7) lt, of h] h q True mal show ?thesis
    by (auto simp: Return_def Let_def)
qed

lemma install_buffer_shrink:
  assumes inv: "pool_inv p" and lt: "new_cap < m_capacity p"
  shows "install_buffer new_cap p = Inl OutOfBounds"
proof -
  from lt have "m_capacity p \<noteq> 0"
    by auto
  with inv obtain b where "m_pool p = Some b" "length b = unat (m_capacity p)"
    by (cases "m_pool p") (auto simp: pool_inv_def)
  with lt show ?thesis
    by (simp add: install_buffer_def memcpy_slots_def word_less_nat_alt)
qed

lemma push_slot_full:
  assumes inv: "pool_inv p" and full: "m_size p = m_capacity p"
  shows "\<exists>x. push_slot h p = Inl x"
  using assms by (auto simp: push_slot_def pool_inv_def split: option.splits)

lemma Return_faults:
  assumes inv: "pool_inv p" and h: "h \<noteq> 0" and full: "m_capacity p = m_size p"
    and mal: "malloc_ok e (n_malloc w)" and ng: "Return_new_cap (m_capacity p) \<le> m_capacity p"
  shows "\<exists>x. Return e h p w = Inl x"
proof (cases "Return_new_cap (m_capacity p) = m_capacity p")
  case True
  from install_buffer_ok [OF inv, of "m_capacity p"] obtain q where
    q: "install_buffer (m_capacity p) p = Inr q" "m_size q = m_size p"
      "m_capacity q = m_capacity p" "pool_inv q"
    by auto
  from push_slot_full [OF q(4), of h] q full obtain x where "push_slot h q = Inl x"
    by auto
  with q h full mal True show ?thesis
    by (simp add: Return_def Let_def)
next
  case False
  with ng have "Return_new_cap (m_capacity p) < m_capacity p"
    by simp
  from install_buffer_shrink [OF inv this] h full mal show ?thesis
    by (simp add: Return_def Let_def)
qed

lemma Return_destroys:
  assumes "m_capacity p = m_size p" and "h \<noteq> 0" and "\<not> malloc_ok e (n_malloc w)"
  shows "Return e h p w =
    (case m_factory p of
       None \<Rightarrow> Inl NullFactory
     | Some f \<Rightarrow> Inr (p, w\<lparr>n_malloc := n_malloc w + 1, trace := trace w @ [DestroyData f h]\<rparr>))"
  using assms by (simp add: Return_def call_DestroyData_def Let_def split: option.splits)

subsection \<open>Reserve and Reset\<close>

lemma Reserve_new_cap_ge: "n \<le> Reserve_new_cap cap n"
  by (simp add: Reserve_new_cap_def)

lemma Reserve_ok:
  assumes inv: "pool_inv p" and f: "m_factory p = Some f" and lt: "m_capacity p < n"
    and mal: "malloc_ok e (n_malloc w)" and ok: "\<forall>k. create_result e f k \<noteq> 0"
  shows "\<exists>p' w'. Reserve e n p w = Inr (p', w') \<and> pool_inv p' \<and>
           m_capacity p' = Reserve_new_cap (m_capacity p) n \<and>
           m_size p' = m_size p + (n - m_capacity p) \<and>
           m_ncreated p' = m_ncreated p + (n - m_capacity p) \<and>
           m_factory p' = m_factory p \<and>
           bank p' = bank p @ map (create_result e f)
                       [n_create w ..< n_create w + (unat n - unat (m_capacity p))] \<and>
           trace w' = trace w @ map (\<lambda>k. CreateData f (create_result e f k))
                       [n_create w ..< n_create w + (unat n - unat (m_capacity p))] \<and>
           n_create w' = n_create w + (unat n - unat (m_capacity p)) \<and>
           n_malloc w' = n_malloc w + 1"
proof -
  let ?nc = "Reserve_new_cap (m_capacity p) n"
  let ?w1 = "w\<lparr>n_malloc := n_malloc w + 1\<rparr>"
  have nle: "n \<le> ?nc"
    by (rule Reserve_new_cap_ge)
  with lt have le: "m_capacity p \<le> ?nc"
    by simp
  from install_buffer_ok [OF inv le] obtain q where
    q: "install_buffer ?nc p = Inr q" "m_size q = m_size p" "m_capacity q = ?nc"
      "m_ncreated q = m_ncreated p" "m_factory q = m_factory p" "bank q = bank p" "pool_inv q"
    by auto
  from inv have "unat (m_size p) \<le> unat (m_capacity p)"
    by (simp add: pool_inv_def word_le_nat_alt)
  moreover from lt have "unat (m_capacity p) < unat n"
    by (simp add: word_less_nat_alt)
  moreover from nle have "unat n \<le> unat ?nc"
    by (simp add: word_le_nat_alt)
  ultimately have room: "unat (m_size q) + (unat n - unat (m_capacity p)) \<le> unat (m_capacity q)"
    by (simp add: q)
  from lt have cn: "m_capacity p \<le> n"
    by simp
  from f q have fq: "m_factory q = Some f"
    by simp
  have r: "Reserve e n p w = reserve_loop e (m_capacity p) n q ?w1"
    using lt mal q(1) by (simp add: Reserve_def Let_def not_le [symmetric])
  from reserve_loop_ok [OF ok q(7) cn room fq, of ?w1]
  show ?thesis
    unfolding r q by (elim exE conjE, intro exI conjI) simp_all
qed

lemma Reserve_noop: "n \<le> m_capacity p \<Longrightarrow> Reserve e n p w = Inr (p, w)"
  by (simp add: Reserve_def)

lemma Reserve_nomem:
  "m_capacity p < n \<Longrightarrow> \<not> malloc_ok e (n_malloc w) \<Longrightarrow>
   Reserve e n p w = Inr (p, w\<lparr>n_malloc := n_malloc w + 1\<rparr>)"
  by (simp add: Reserve_def Let_def not_le [symmetric])

lemma Reserve_null_factory:
  assumes inv: "pool_inv p" and f: "m_factory p = None" and lt: "m_capacity p < n"
    and mal: "malloc_ok e (n_malloc w)"
  shows "Reserve e n p w = Inl NullFactory"
proof -
  let ?nc = "Reserve_new_cap (m_capacity p) n"
  have "n \<le> ?nc"
    by (rule Reserve_new_cap_ge)
  with lt have le: "m_capacity p \<le> ?nc"
    by simp
  from install_buffer_ok [OF inv le] obtain q where
    q: "install_buffer ?nc p = Inr q" "m_factory q = m_factory p"
    by auto
  have "reserve_loop e (m_capacity p) n q w' = Inl NullFactory" for w'
    using lt q f by (subst reserve_loop.simps) (simp add: call_CreateData_def)
  then show ?thesis
    using lt mal q(1) by (simp add: Reserve_def Let_def not_le [symmetric])
qed

lemma Reset_ok:
  assumes inv: "pool_inv p"
  shows "Reset nf p w =
           Inr (SimpleDataPool nf,
                w\<lparr>trace := trace w @
                   (case m_factory p of None \<Rightarrow> [] | Some f \<Rightarrow> map (DestroyData f) (bank p))\<rparr>)"
proof -
  have fresh: "p\<lparr>m_capacity := 0, m_size := 0, m_ncreated := 0, m_pool := None,
                 m_factory := nf\<rparr> = SimpleDataPool nf"
    by (simp add: SimpleDataPool_def)
  show ?thesis
  proof (cases "m_pool p")
    case None
    then show ?thesis
      by (simp add: Reset_def Let_def fresh bank_def split: option.splits)
  next
    case (Some b)
    with inv have b: "unat (m_size p) \<le> length b" "list_all slot_live (take (unat (m_size p)) b)"
      by (simp_all add: pool_inv_def word_le_nat_alt)
    show ?thesis
    proof (cases "m_factory p")
      case None
      with Some show ?thesis
        by (simp add: Reset_def Let_def fresh)
    next
      case (Some f)
      have "destroy_loop f b 0 (m_size p) w =
              Inr (w\<lparr>trace := trace w @ map (DestroyData f) (bank p)\<rparr>)"
        using destroy_loop_ok [OF b, of 0 f w] \<open>m_pool p = Some b\<close>
        by (simp add: bank_def comp_def)
      with Some \<open>m_pool p = Some b\<close> show ?thesis
        by (simp add: Reset_def Let_def fresh)
    qed
  qed
qed

lemma count_list_map_inj:
  "inj g \<Longrightarrow> count_list (map g xs) (g x) = count_list xs x"
  by (induction xs) (auto dest: injD)

lemma count_destroyed:
  "count_list (map (DestroyData f) xs) (DestroyData f h) = count_list xs h"
  by (rule count_list_map_inj) (simp add: inj_def)

lemma count_list_distinct:
  "distinct xs \<Longrightarrow> x \<in> set xs \<Longrightarrow> count_list xs x = 1"
  by (induction xs) auto

subsection \<open>Accounting of constructions\<close>

text \<open>
  Every call that completes appends events to the trace and adds to the creation
  counter the number of handles those events produced.
\<close>

lemma created_ok_simps [simp]:
  "created_ok [] = 0"
  "created_ok (xs @ ys) = created_ok xs + created_ok ys"
  "created_ok (x # xs) = (if produced x then 1 else 0) + created_ok xs"
  by (simp_all add: created_ok_def)

lemma push_slot_fields:
  "push_slot h p = Inr p' \<Longrightarrow>
   m_ncreated p' = m_ncreated p \<and> m_factory p' = m_factory p \<and> m_capacity p' = m_capacity p"
  by (auto simp: push_slot_def split: option.splits if_splits)

lemma install_buffer_fields:
  "install_buffer c p = Inr p' \<Longrightarrow>
   m_ncreated p' = m_ncreated p \<and> m_factory p' = m_factory p \<and> m_size p' = m_size p"
  by (auto simp: install_buffer_def Let_def split: option.splits sum.splits)

lemma reserve_loop_accounts:
  "reserve_loop e i n p w = Inr (p', w') \<Longrightarrow>
   \<exists>evs. trace w' = trace w @ evs \<and> m_ncreated p' = m_ncreated p + of_nat (created_ok evs)"
proof (induction m \<equiv> "unat n - unat i" arbitrary: i p w)
  case 0
  then have "\<not> i < n"
    by (simp add: word_less_nat_alt)
  then have "reserve_loop e i n p w = Inr (p, w)"
    by (subst reserve_loop.simps) simp
  with 0 show ?case
    by simp
next
  case (Suc m)
  then have lt: "i < n"
    by (simp add: word_less_nat_alt)
  then have suc: "unat (i + 1) = Suc (unat i)"
    by (rule unat_succ_of_less)
  with Suc.hyps(2) have m: "m = unat n - unat (i + 1)"
    by simp
  from Suc.prems lt obtain f where f: "m_factory p = Some f"
    by (subst (asm) reserve_loop.simps) (auto simp: call_CreateData_def split: option.splits)
  let ?data = "create_result e f (n_create w)"
  let ?w1 = "w\<lparr>n_create := n_create w + 1, trace := trace w @ [CreateData f ?data]\<rparr>"
  have c: "call_CreateData e (m_factory p) w = Inr (?data, ?w1)"
    using f by (simp add: call_CreateData_def Let_def)
  show ?case
  proof (cases "?data = 0")
    case True
    with Suc.prems lt c have "p' = p" "w' = ?w1"
      by (subst (asm) reserve_loop.simps; simp)+
    with True show ?thesis
      by simp
  next
    case False
    with Suc.prems lt c obtain p2 where
      p2: "push_slot ?data (p\<lparr>m_ncreated := m_ncreated p + 1\<rparr>) = Inr p2"
        and r: "reserve_loop e (i + 1) n p2 ?w1 = Inr (p', w')"
      by (subst (asm) reserve_loop.simps) (auto split: sum.splits)
    from Suc.hyps(1) [OF m r] obtain evs where
      evs: "trace w' = trace ?w1 @ evs" "m_ncreated p' = m_ncreated p2 + of_nat (created_ok evs)"
      by blast
    from push_slot_fields [OF p2] have "m_ncreated p2 = m_ncreated p + 1"
      by simp
    with evs False show ?thesis
      by (intro exI [of _ "CreateData f ?data # evs"]) simp
  qed
qed

lemma Reserve_accounts:
  assumes "Reserve e n p w = Inr (p', w')"
  shows "\<exists>evs. trace w' = trace w @ evs \<and> m_ncreated p' = m_ncreated p + of_nat (created_ok evs)"
proof (cases "n \<le> m_capacity p \<or> \<not> malloc_ok e (n_malloc w)")
  case True
  with assms have "p' = p \<and> trace w' = trace w"
    by (auto simp: Reserve_def Let_def split: if_splits)
  then show ?thesis
    by simp
next
  case False
  with assms obtain q where q: "install_buffer (Reserve_new_cap (m_capacity p) n) p = Inr q"
    and r: "reserve_loop e (m_capacity p) n q (w\<lparr>n_malloc := n_malloc w + 1\<rparr>) = Inr (p', w')"
    by (auto simp: Reserve_def Let_def split: sum.splits)
  from reserve_loop_accounts [OF r] install_buffer_fields [OF q] show ?thesis
    by simp
qed

lemma Borrow_accounts:
  assumes "Borrow e p w = Inr (h, p', w')"
  shows "\<exists>evs. trace w' = trace w @ evs \<and> m_ncreated p' = m_ncreated p + of_nat (created_ok evs)"
proof (cases "m_size p = 0")
  case False
  with assms have "m_ncreated p' = m_ncreated p \<and> trace w' = trace w"
    by (auto simp: Borrow_def split: sum.splits)
  then show ?thesis
    by simp
next
  case True
  with assms obtain f where f: "m_factory p = Some f"
    by (cases "m_factory p") (simp_all add: Borrow_miss)
  let ?data = "create_result e f (n_create w)"
  from assms True f have "trace w' = trace w @ [CreateData f ?data]"
    and "m_ncreated p' = m_ncreated p + of_nat (created_ok [CreateData f ?data])"
    by (auto simp: Borrow_miss)
  then show ?thesis
    by blast
qed

lemma Return_accounts:
  assumes "Return e h p w = Inr (p', w')"
  shows "\<exists>evs. trace w' = trace w @ evs \<and> m_ncreated p' = m_ncreated p + of_nat (created_ok evs)"
proof -
  have "(trace w' = trace w \<or> (\<exists>f. trace w' = trace w @ [DestroyData f h])) \<and>
        m_ncreated p' = m_ncreated p"
    using assms
    by (auto simp: Return_def Let_def call_DestroyData_def
        dest!: push_slot_fields install_buffer_fields split: if_splits sum.splits option.splits)
  then show ?thesis
    by (elim conjE disjE exE) (rule exI [of _ "[]"], simp, rule exI [of _ "[DestroyData _ h]"], simp)
qed

lemma step_accounts:
  assumes "step e x (p, w) = Inr (p', w')"
  shows "\<exists>evs. trace w' = trace w @ evs \<and> m_ncreated p' = m_ncreated p + of_nat (created_ok evs)"
proof (cases x)
  case (OpReserve n)
  with assms show ?thesis by (simp add: Reserve_accounts)
next
  case OpBorrow
  with assms obtain h where "Borrow e p w = Inr (h, p', w')"
    by (auto split: sum.splits)
  then show ?thesis by (rule Borrow_accounts)
next
  case (OpReturn h)
  with assms show ?thesis by (simp add: Return_accounts)
qed

lemma run_accounts:
  "run e xs (p, w) = Inr (p', w') \<Longrightarrow>
   \<exists>evs. trace w' = trace w @ evs \<and> m_ncreated p' = m_ncreated p + of_nat (created_ok evs)"
proof (induction xs arbitrary: p w)
  case Nil
  then show ?case by simp
next
  case (Cons x xs)
  then obtain p1 w1 where s: "step e x (p, w) = Inr (p1, w1)"
    and r: "run e xs (p1, w1) = Inr (p', w')"
    by (auto split: sum.splits)
  from step_accounts [OF s] obtain evs1 where
    1: "trace w1 = trace w @ evs1" "m_ncreated p1 = m_ncreated p + of_nat (created_ok evs1)"
    by blast
  from Cons.IH [OF r] obtain evs2 where
    2: "trace w' = trace w1 @ evs2" "m_ncreated p' = m_ncreated p1 + of_nat (created_ok evs2)"
    by blast
  from 1 2 show ?case
    by (intro exI [of _ "evs1 @ evs2"]) simp
qed

lemma unat_add_of_nat:
  fixes a :: "32 word"
  assumes "unat a + k < 2 ^ 32"
  shows "unat (a + of_nat k) = unat a + k"
proof -
  from assms have "k < 2 ^ 32" by simp
  then have "unat (of_nat k :: 32 word) = k"
    by (simp add: unat_of_nat)
  with assms show ?thesis
    by (simp add: unat_add_lem [THEN iffD1])
qed

subsection \<open>The invariant is kept by every call that completes\<close>

text \<open>
  A fresh pool satisfies the invariant, and so does the state after any call that
  does not fault: the states reached from the constructor are the ones the theorems
  below speak about.
\<close>

lemma pool_inv_fresh: "pool_inv (SimpleDataPool fo)"
  by (simp add: pool_inv_def SimpleDataPool_def)

lemma reserve_loop_safe:
  "pool_inv p \<Longrightarrow> i \<le> n \<Longrightarrow> unat (m_size p) + (unat n - unat i) \<le> unat (m_capacity p) \<Longrightarrow>
   m_factory p = Some f \<Longrightarrow>
   \<exists>p' w'. reserve_loop e i n p w = Inr (p', w') \<and> pool_inv p' \<and>
     m_capacity p' = m_capacity p \<and> m_factory p' = m_factory p"
proof (induction m \<equiv> "unat n - unat i" arbitrary: i p w)
  case 0
  then have "\<not> i < n"
    by (simp add: word_less_nat_alt)
  then have "reserve_loop e i n p w = Inr (p, w)"
    by (subst reserve_loop.simps) simp
  with 0 show ?case
    by simp
next
  case (Suc m)
  then have lt: "i < n"
    by (simp add: word_less_nat_alt)
  then have suc: "unat (i + 1) = Suc (unat i)"
    by (rule unat_succ_of_less)
  from Suc.hyps(2) suc have m: "m = unat n - unat (i + 1)" "unat n - unat i = Suc m"
    by simp_all
  let ?data = "create_result e f (n_create w)"
  let ?w1 = "w\<lparr>n_create := n_create w + 1, trace := trace w @ [CreateData f ?data]\<rparr>"
  let ?p1 = "p\<lparr>m_ncreated := m_ncreated p + 1\<rparr>"
  have c: "call_CreateData e (m_factory p) w = Inr (?data, ?w1)"
    using Suc.prems(4) by (simp add: call_CreateData_def Let_def)
  show ?case
  proof (cases "?data = 0")
    case True
    with lt c have "reserve_loop e i n p w = Inr (p, ?w1)"
      by (subst reserve_loop.simps) simp
    with Suc.prems show ?thesis
      by simp
  next
    case False
    have inv1: "pool_inv ?p1"
      using Suc.prems(1) by simp
    have lt1: "m_size ?p1 < m_capacity ?p1"
      using Suc.prems(3) m by (simp add: word_less_nat_alt)
    from push_slot_ok [OF inv1 lt1, of ?data] False obtain p2 where
      p2: "push_slot ?data ?p1 = Inr p2" "m_size p2 = m_size p + 1" "m_capacity p2 = m_capacity p"
        "m_factory p2 = m_factory p" "pool_inv p2"
      by auto
    from lt1 have "unat (m_size p + 1) = Suc (unat (m_size p))"
      using unat_succ_of_less [of "m_size p" "m_capacity p"] by simp
    with Suc.prems(3) m have room: "unat (m_size p2) + (unat n - unat (i + 1)) \<le> unat (m_capacity p2)"
      by (simp add: p2)
    have le: "i + 1 \<le> n"
      using lt by (rule inc_le)
    have f2: "m_factory p2 = Some f"
      using p2 Suc.prems(4) by simp
    have unfold: "reserve_loop e i n p w = reserve_loop e (i + 1) n p2 ?w1"
      using lt c False p2(1) by (subst reserve_loop.simps) simp
    from Suc.hyps(1) [OF m(1) p2(5) le room f2, of ?w1] show ?thesis
      unfolding unfold p2 .
  qed
qed

lemma Reserve_safe:
  assumes inv: "pool_inv p" and lt: "m_capacity p < n" and f: "m_factory p = Some f"
  shows "\<exists>p' w'. Reserve e n p w = Inr (p', w') \<and> pool_inv p'"
proof (cases "malloc_ok e (n_malloc w)")
  case False
  with lt inv show ?thesis
    by (simp add: Reserve_nomem)
next
  case True
  let ?nc = "Reserve_new_cap (m_capacity p) n"
  have nle: "n \<le> ?nc"
    by (rule Reserve_new_cap_ge)
  with lt have le: "m_capacity p \<le> ?nc"
    by simp
  from install_buffer_ok [OF inv le] obtain q where
    q: "install_buffer ?nc p = Inr q" "m_size q = m_size p" "m_capacity q = ?nc"
      "m_factory q = m_factory p" "pool_inv q"
    by auto
  from inv have "unat (m_size p) \<le> unat (m_capacity p)"
    by (simp add: pool_inv_def word_le_nat_alt)
  moreover from lt have "unat (m_capacity p) < unat n"
    by (simp add: word_less_nat_alt)
  moreover from nle have "unat n \<le> unat ?nc"
    by (simp add: word_le_nat_alt)
  ultimately have room: "unat (m_size q) + (unat n - unat (m_capacity p)) \<le> unat (m_capacity q)"
    by (simp add: q)
  from lt have cn: "m_capacity p \<le> n"
    by simp
  from f q have fq: "m_factory q = Some f"
    by simp
  have "Reserve e n p w = reserve_loop e (m_capacity p) n q (w\<lparr>n_malloc := n_malloc w + 1\<rparr>)"
    using lt True q(1) by (simp add: Reserve_def Let_def not_le [symmetric])
  with reserve_loop_safe [OF q(5) cn room fq, of e "w\<lparr>n_malloc := n_malloc w + 1\<rparr>"]
  show ?thesis
    by auto
qed

lemma pool_inv_Reserve:
  assumes inv: "pool_inv p" and r: "Reserve e n p w = Inr (p', w')"
  shows "pool_inv p'"
proof (cases "n \<le> m_capacity p")
  case True
  with r inv show ?thesis
    by (simp add: Reserve_noop)
next
  case False
  then have lt: "m_capacity p < n"
    by simp
  show ?thesis
  proof (cases "m_factory p")
    case None
    show ?thesis
    proof (cases "malloc_ok e (n_malloc w)")
      case True
      from Reserve_null_factory [OF inv None lt True] r show ?thesis
        by simp
    next
      case False
      with lt r inv show ?thesis
        by (simp add: Reserve_nomem)
    qed
  next
    case (Some f)
    from Reserve_safe [OF inv lt Some, of e w] r show ?thesis
      by auto
  qed
qed

lemma pool_inv_Borrow:
  assumes inv: "pool_inv p" and r: "Borrow e p w = Inr (h, p', w')"
  shows "pool_inv p'"
proof (cases "m_size p = 0")
  case True
  with r inv show ?thesis
    by (auto simp: Borrow_miss split: option.splits if_splits)
next
  case False
  from Borrow_hit(1) [OF inv False, of e w] Borrow_hit(2) [OF inv False] r show ?thesis
    by simp
qed

lemma Return_room:
  assumes inv: "pool_inv p" and h: "h \<noteq> 0" and r: "Return e h p w = Inr (p', w')"
    and mal: "m_capacity p = m_size p \<longrightarrow> malloc_ok e (n_malloc w)"
  shows "m_size p < m_capacity p \<or>
         (malloc_ok e (n_malloc w) \<and> m_capacity p < Return_new_cap (m_capacity p))"
proof (rule ccontr)
  assume n: "\<not> ?thesis"
  with inv have full: "m_capacity p = m_size p"
    by (auto simp: pool_inv_def)
  with mal n have "malloc_ok e (n_malloc w)" "Return_new_cap (m_capacity p) \<le> m_capacity p"
    by auto
  from Return_faults [OF inv h full this] r show False
    by auto
qed

lemma pool_inv_Return:
  assumes inv: "pool_inv p" and r: "Return e h p w = Inr (p', w')"
  shows "pool_inv p'"
proof (cases "h = 0 \<or> (m_capacity p = m_size p \<and> \<not> malloc_ok e (n_malloc w))")
  case True
  have "p' = p"
  proof (cases "h = 0")
    case True
    with r show ?thesis
      by (simp add: Return_def)
  next
    case False
    with True r show ?thesis
      by (auto simp: Return_destroys split: option.splits)
  qed
  with inv show ?thesis
    by simp
next
  case False
  then have h: "h \<noteq> 0" and mal: "m_capacity p = m_size p \<longrightarrow> malloc_ok e (n_malloc w)"
    by auto
  from Return_banks [OF inv h Return_room [OF inv h r mal]] r show ?thesis
    by auto
qed

lemma pool_inv_run:
  "pool_inv p \<Longrightarrow> run e xs (p, w) = Inr (p', w') \<Longrightarrow> pool_inv p'"
proof (induction xs arbitrary: p w)
  case Nil
  then show ?case by simp
next
  case (Cons x xs)
  then obtain p1 w1 where s: "step e x (p, w) = Inr (p1, w1)"
    and r: "run e xs (p1, w1) = Inr (p', w')"
    by (auto split: sum.splits)
  have "pool_inv p1"
  proof (cases x)
    case (OpReserve n)
    with s Cons.prems(1) show ?thesis by (auto intro: pool_inv_Reserve)
  next
    case OpBorrow
    with s Cons.prems(1) show ?thesis by (auto split: sum.splits intro: pool_inv_Borrow)
  next
    case (OpReturn h)
    with s Cons.prems(1) show ?thesis by (auto intro: pool_inv_Return)
  qed
  then show ?case
    using r by (rule Cons.IH)
qed

subsection \<open>Steps of the scenario\<close>

lemma Borrow_pops:
  assumes inv: "pool_inv p" and nz: "m_size p \<noteq> 0"
  shows "\<exists>h p'. Borrow e p w = Inr (h, p', w) \<and> h \<noteq> 0 \<and> pool_inv p' \<and>
           m_size p' = m_size p - 1 \<and> m_ncreated p' = m_ncreated p \<and>
           m_capacity p' = m_capacity p"
  using Borrow_hit(1) [OF inv nz, of e w] Borrow_hit(2,4) [OF inv nz] by simp

lemma Return_Borrow_within_capacity:
  assumes inv: "pool_inv p" and h: "h \<noteq> 0" and lt: "m_size p < m_capacity p"
  shows "\<exists>p5 p6. Return e h p w = Inr (p5, w) \<and> m_size p5 = m_size p + 1 \<and>
           m_ncreated p5 = m_ncreated p \<and> Borrow e p5 w = Inr (h, p6, w) \<and>
           m_size p6 = m_size p \<and> m_ncreated p6 = m_ncreated p"
proof -
  from lt have "m_size p < m_capacity p \<or>
      (malloc_ok e (n_malloc w) \<and> m_capacity p < Return_new_cap (m_capacity p))"
    by simp
  from Return_banks [OF inv h this] lt obtain p5 where
    p5: "Return e h p w = Inr (p5, w)" "pool_inv p5" "bank p5 = bank p @ [h]"
      "m_size p5 = m_size p + 1" "m_ncreated p5 = m_ncreated p"
    by auto
  from bank_live(2) [OF p5(2)] p5(3) have "unat (m_size p5) \<noteq> 0"
    by simp
  then have nz: "m_size p5 \<noteq> 0"
    by (simp add: unat_eq_0)
  note hit = Borrow_hit [OF p5(2) nz]
  have "Borrow e p5 w = Inr (h, p5\<lparr>m_size := m_size p5 - 1\<rparr>, w)"
    using hit(1) [of e w] p5(3) by simp
  with p5 show ?thesis
    by (intro exI [of _ p5] exI [of _ "p5\<lparr>m_size := m_size p5 - 1\<rparr>"]) simp
qed

lemma run_Borrow_accounting:
  assumes ok: "\<forall>j. create_result e f j \<noteq> 0"
  shows "m_size p = 0 \<Longrightarrow> m_factory p = Some f \<Longrightarrow>
         map_sum id accounting (run e (replicate k OpBorrow) (p, w)) =
           Inr (\<lparr>nfree = 0, ncreated = m_ncreated p + of_nat k\<rparr>, created_ok (trace w) + k)"
proof (induction k arbitrary: p w)
  case 0
  then show ?case
    by (simp add: stat_def)
next
  case (Suc k)
  let ?p1 = "p\<lparr>m_ncreated := m_ncreated p + 1\<rparr>"
  let ?w1 = "w\<lparr>n_create := n_create w + 1,
               trace := trace w @ [CreateData f (create_result e f (n_create w))]\<rparr>"
  have s: "step e OpBorrow (p, w) = Inr (?p1, ?w1)"
    using Suc.prems ok by (simp add: Borrow_miss)
  have u: "run e (replicate (Suc k) OpBorrow) (p, w) = run e (replicate k OpBorrow) (?p1, ?w1)"
    using s by simp
  have ih: "map_sum id accounting (run e (replicate k OpBorrow) (?p1, ?w1)) =
          Inr (\<lparr>nfree = 0, ncreated = m_ncreated ?p1 + of_nat k\<rparr>, created_ok (trace ?w1) + k)"
    using Suc.prems by (intro Suc.IH) simp_all
  show ?case
    unfolding u ih using ok by (simp add: add.assoc)
qed

subsection \<open>Growth arithmetic\<close>

text \<open>
  Where the growth of \<^verbatim>\<open>Return\<close> does increase the capacity: from 0 to 128, and from
  any capacity between 2 and 1431655765, below which \<open>capacity * 3\<close> fits in 32 bits.
  The growth of \<^verbatim>\<open>Reserve\<close> always does, since it is at least \<open>n\<close>.
\<close>

lemma Return_new_cap_zero: "Return_new_cap 0 = 128"
  by (simp add: Return_new_cap_def)

lemma Return_new_cap_grows:
  assumes "2 \<le> cap" and "cap < 1431655766"
  shows "cap < Return_new_cap cap"
proof -
  from assms have nz: "cap \<noteq> 0"
    by auto
  from assms(2) have b: "unat cap * 3 < 2 ^ 32"
    by (simp add: word_less_nat_alt)
  then have m: "unat (cap * 3) = unat cap * 3"
    by (simp add: unat_mult_lem [THEN iffD1])
  have d: "unat (cap * 3 div 2) = unat cap * 3 div 2"
    by (simp add: unat_div m)
  from assms(1) have "2 \<le> unat cap"
    by (simp add: word_le_nat_alt)
  then have "unat cap < unat cap * 3 div 2"
    by arith
  then show ?thesis
    using nz by (simp add: Return_new_cap_def word_less_nat_alt d)
qed

lemma Reserve_new_cap_grows: "cap < n \<Longrightarrow> cap < Reserve_new_cap cap n"
  by (erule less_le_trans) (rule Reserve_new_cap_ge)

text \<open>
  Within that range, and whenever the bank is not full, a \<^verbatim>\<open>Return\<close> banks the
  handle and the next \<^verbatim>\<open>Borrow\<close> gives it back.
\<close>

lemma Return_Borrow_roundtrip_in_range:
  assumes inv: "pool_inv p" and h: "h \<noteq> 0"
    and room: "m_size p < m_capacity p \<or>
               (malloc_ok e (n_malloc w) \<and>
                (m_capacity p = 0 \<or> (2 \<le> m_capacity p \<and> m_capacity p < 1431655766)))"
  shows "\<exists>p' w' p''. Return e h p w = Inr (p', w') \<and> bank p' = bank p @ [h] \<and>
           Borrow e p' w' = Inr (h, p'', w') \<and> bank p'' = bank p \<and>
           stat p'' = stat p \<and> pool_inv p''"
proof -
  have "m_capacity p < Return_new_cap (m_capacity p)"
    if "m_capacity p = 0 \<or> (2 \<le> m_capacity p \<and> m_capacity p < 1431655766)"
    using that by (auto simp: Return_new_cap_zero Return_new_cap_grows)
  with room have "m_size p < m_capacity p \<or>
      (malloc_ok e (n_malloc w) \<and> m_capacity p < Return_new_cap (m_capacity p))"
    by blast
  from Return_banks [OF inv h this] obtain p' w' where
    r: "Return e h p w = Inr (p', w')" and p': "pool_inv p'" "bank p' = bank p @ [h]"
      "m_size p' = m_size p + 1" "m_ncreated p' = m_ncreated p"
    by blast
  from bank_live(2) [OF p'(1)] p'(2) have "unat (m_size p') \<noteq> 0"
    by simp
  then have nz: "m_size p' \<noteq> 0"
    by (simp add: unat_eq_0)
  note hit = Borrow_hit [OF p'(1) nz]
  have "Borrow e p' w' = Inr (h, p'\<lparr>m_size := m_size p' - 1\<rparr>, w')"
    using hit(1) [of e w'] p'(2) by simp
  moreover have "bank (p'\<lparr>m_size := m_size p' - 1\<rparr>) = bank p"
    using hit(3) p'(2) by simp
  moreover have "stat (p'\<lparr>m_size := m_size p' - 1\<rparr>) = stat p"
    using p'(3,4) by (simp add: stat_def)
  ultimately show ?thesis
    using r p'(2) hit(2) by blast
qed

section \<open>The growth of a full bank\<close>

text \<open>
  C1. Every operation should keep \<open>size \<le> capacity\<close>, in particular \<^verbatim>\<open>Return\<close> on a
  full bank. On the code this fails at capacity 1: \<^verbatim>\<open>Reserve(1)\<close> on a fresh pool
  leaves capacity 1 and size 1, a state that satisfies the invariant; the next
  \<^verbatim>\<open>Return\<close> computes the new capacity \<open>1 * 3 / 2 = 1\<close>, installs a buffer of one slot
  and writes the handle to slot 1, beyond the buffer.
\<close>

theorem Return_overruns_full_bank_of_capacity_one:
  "run env_ok [OpReserve 1] (SimpleDataPool (Some 1), world0) =
     Inr (\<lparr>m_capacity = 1, m_size = 1, m_ncreated = 1, m_pool = Some [Some 100],
           m_factory = Some 1\<rparr>,
          \<lparr>n_create = 1, n_malloc = 1, trace = [CreateData 1 100]\<rparr>) \<and>
   pool_inv \<lparr>m_capacity = 1, m_size = 1, m_ncreated = 1, m_pool = Some [Some 100],
             m_factory = Some 1\<rparr> \<and>
   Return env_ok 7
     \<lparr>m_capacity = 1, m_size = 1, m_ncreated = 1, m_pool = Some [Some 100],
      m_factory = Some 1\<rparr>
     \<lparr>n_create = 1, n_malloc = 1, trace = [CreateData 1 100]\<rparr> = Inl OutOfBounds"
  by (simp add: Reserve_def Return_def SimpleDataPool_def env_ok_def world0_def
      Reserve_new_cap_def Return_new_cap_def install_buffer_def call_CreateData_def
      reserve_loop.simps
      push_slot_def memcpy_slots_def pool_inv_def)

text \<open>
  C9. The new capacity computed by \<^verbatim>\<open>Return\<close> should be strictly greater than the old
  one for every capacity. On the code it is not: at capacity 1 it is 1 again, and from
  capacity 1431655766 on the product \<open>capacity * 3\<close> wraps around in 32 bits, so the
  new capacity is smaller than the old one (1 there, 0 at capacity 2863311531).
\<close>

theorem Return_new_cap_not_greater:
  "Return_new_cap 1 = 1 \<and> Return_new_cap 1431655766 = 1 \<and> Return_new_cap 2863311531 = 0"
  by (simp add: Return_new_cap_def)

section \<open>Reserve\<close>

text \<open>
  C2, as stated: after \<^verbatim>\<open>Reserve(n)\<close> without allocation or construction failure, at
  least \<open>n\<close> handles are banked. The code tests the capacity, not the size: a fresh pool
  that takes one \<^verbatim>\<open>Return\<close> has capacity 128 and size 1, and \<^verbatim>\<open>Reserve(5)\<close> then
  returns at once, constructing nothing and leaving one handle banked. And where it
  does grow, its fill counts from the old capacity, not from the size: after
  \<^verbatim>\<open>Reserve(2)\<close> and one \<^verbatim>\<open>Borrow\<close> the capacity is 2 and the size 1, and
  \<^verbatim>\<open>Reserve(3)\<close> constructs one handle, \<open>3 - 2\<close>, and leaves two banked.
\<close>

theorem Reserve_no_fill_below_capacity:
  "run env_ok [OpReturn 7] (SimpleDataPool (Some 1), world0) =
     Inr (\<lparr>m_capacity = 128, m_size = 1, m_ncreated = 0,
           m_pool = Some ((replicate 128 None)[0 := Some 7]), m_factory = Some 1\<rparr>,
          \<lparr>n_create = 0, n_malloc = 1, trace = []\<rparr>) \<and>
   run env_ok [OpReturn 7, OpReserve 5] (SimpleDataPool (Some 1), world0) =
     Inr (\<lparr>m_capacity = 128, m_size = 1, m_ncreated = 0,
           m_pool = Some ((replicate 128 None)[0 := Some 7]), m_factory = Some 1\<rparr>,
          \<lparr>n_create = 0, n_malloc = 1, trace = []\<rparr>) \<and>
   run env_ok [OpReserve 2, OpBorrow] (SimpleDataPool (Some 1), world0) =
     Inr (\<lparr>m_capacity = 2, m_size = 1, m_ncreated = 2,
           m_pool = Some [Some 100, Some 101], m_factory = Some 1\<rparr>,
          \<lparr>n_create = 2, n_malloc = 1, trace = [CreateData 1 100, CreateData 1 101]\<rparr>) \<and>
   run env_ok [OpReserve 2, OpBorrow, OpReserve 3] (SimpleDataPool (Some 1), world0) =
     Inr (\<lparr>m_capacity = 3, m_size = 2, m_ncreated = 3,
           m_pool = Some [Some 100, Some 102, None], m_factory = Some 1\<rparr>,
          \<lparr>n_create = 3, n_malloc = 2,
           trace = [CreateData 1 100, CreateData 1 101, CreateData 1 102]\<rparr>)"
proof -
  have rep: "replicate 2 (None :: slot) = [None, None]"
    "replicate 3 (None :: slot) = [None, None, None]"
    by (simp_all add: numeral_2_eq_2 numeral_3_eq_3)
  show ?thesis
    by (simp add: rep Reserve_def Return_def Borrow_def SimpleDataPool_def env_ok_def
        world0_def Reserve_new_cap_def Return_new_cap_def install_buffer_def
        call_CreateData_def push_slot_def read_slot_def memcpy_slots_def reserve_loop.simps)
qed

text \<open>
  C2, amended: in a pool that satisfies the invariant, with a non-null factory that
  never fails and an allocator that succeeds, \<^verbatim>\<open>Reserve(n)\<close> does nothing when
  \<open>n \<le> capacity\<close>. When \<open>capacity < n\<close> it grows the capacity to
  \<open>max (capacity * 3 / 2) n\<close>, which is at least \<open>n\<close>, and constructs exactly
  \<open>n - capacity\<close> handles, each appended to the bank in order with the creation
  counter incremented once per construction; in that case at least \<open>n\<close> handles are
  banked afterwards exactly when the bank was full (\<open>size = capacity\<close>) before the
  call, as it is in a fresh pool.
\<close>

theorem Reserve_fills_from_old_capacity:
  assumes inv: "pool_inv p" and f: "m_factory p = Some f"
    and mal: "malloc_ok e (n_malloc w)" and ok: "\<forall>k. create_result e f k \<noteq> 0"
  shows "(n \<le> m_capacity p \<longrightarrow> Reserve e n p w = Inr (p, w)) \<and>
         (m_capacity p < n \<longrightarrow>
            (\<exists>p' w'. Reserve e n p w = Inr (p', w') \<and> pool_inv p' \<and>
               m_capacity p' = Reserve_new_cap (m_capacity p) n \<and> n \<le> m_capacity p' \<and>
               m_size p' = m_size p + (n - m_capacity p) \<and>
               m_ncreated p' = m_ncreated p + (n - m_capacity p) \<and>
               bank p' = bank p @ map (create_result e f)
                           [n_create w ..< n_create w + unat (n - m_capacity p)] \<and>
               trace w' = trace w @ map (\<lambda>k. CreateData f (create_result e f k))
                           [n_create w ..< n_create w + unat (n - m_capacity p)] \<and>
               ((n \<le> m_size p') = (m_size p = m_capacity p))))"
proof (intro conjI impI)
  assume "n \<le> m_capacity p"
  then show "Reserve e n p w = Inr (p, w)"
    by (rule Reserve_noop)
next
  assume lt: "m_capacity p < n"
  then have u: "unat (n - m_capacity p) = unat n - unat (m_capacity p)"
    by (simp add: unat_sub)
  from inv have sc: "m_size p \<le> m_capacity p"
    by (simp add: pool_inv_def)
  have iff: "(n \<le> m_size p + (n - m_capacity p)) = (m_size p = m_capacity p)"
    using sc lt by unat_arith
  from Reserve_ok [OF inv f lt mal ok] obtain p' w' where
    r: "Reserve e n p w = Inr (p', w')" "pool_inv p'"
      "m_capacity p' = Reserve_new_cap (m_capacity p) n"
      "m_size p' = m_size p + (n - m_capacity p)"
      "m_ncreated p' = m_ncreated p + (n - m_capacity p)"
      "bank p' = bank p @ map (create_result e f)
                   [n_create w ..< n_create w + (unat n - unat (m_capacity p))]"
      "trace w' = trace w @ map (\<lambda>k. CreateData f (create_result e f k))
                   [n_create w ..< n_create w + (unat n - unat (m_capacity p))]"
    by blast
  show "\<exists>p' w'. Reserve e n p w = Inr (p', w') \<and> pool_inv p' \<and>
               m_capacity p' = Reserve_new_cap (m_capacity p) n \<and> n \<le> m_capacity p' \<and>
               m_size p' = m_size p + (n - m_capacity p) \<and>
               m_ncreated p' = m_ncreated p + (n - m_capacity p) \<and>
               bank p' = bank p @ map (create_result e f)
                           [n_create w ..< n_create w + unat (n - m_capacity p)] \<and>
               trace w' = trace w @ map (\<lambda>k. CreateData f (create_result e f k))
                           [n_create w ..< n_create w + unat (n - m_capacity p)] \<and>
               ((n \<le> m_size p') = (m_size p = m_capacity p))"
    using r iff by (intro exI [of _ p'] exI [of _ w']) (simp add: u Reserve_new_cap_ge)
qed

text \<open>
  The amended C2 at a fresh pool: \<^verbatim>\<open>Reserve(5)\<close> banks the five handles 100 to 104,
  and \<^verbatim>\<open>Reserve(0)\<close> does nothing.
\<close>

theorem Reserve_fills_from_old_capacity_witness:
  "pool_inv (SimpleDataPool (Some 1)) \<and> m_factory (SimpleDataPool (Some 1)) = Some 1 \<and>
   malloc_ok env_ok (n_malloc world0) \<and> (\<forall>k. create_result env_ok 1 k \<noteq> 0) \<and>
   m_capacity (SimpleDataPool (Some 1)) < 5 \<and>
   (\<exists>p' w'. Reserve env_ok 5 (SimpleDataPool (Some 1)) world0 = Inr (p', w') \<and>
      m_size p' = 5 \<and> m_ncreated p' = 5 \<and> bank p' = [100, 101, 102, 103, 104]) \<and>
   (0 :: 32 word) \<le> m_capacity (SimpleDataPool (Some 1)) \<and>
   Reserve env_ok 0 (SimpleDataPool (Some 1)) world0 = Inr (SimpleDataPool (Some 1), world0)"
proof -
  have a: "pool_inv (SimpleDataPool (Some 1))"
    by (rule pool_inv_fresh)
  have b: "m_factory (SimpleDataPool (Some 1)) = Some 1"
    by (simp add: SimpleDataPool_def)
  have c: "malloc_ok env_ok (n_malloc world0)"
    by (simp add: env_ok_def)
  have d: "\<forall>k. create_result env_ok 1 k \<noteq> 0"
    by (simp add: env_ok_def)
  have lt: "m_capacity (SimpleDataPool (Some 1)) < 5" and le: "(0 :: 32 word) \<le> m_capacity (SimpleDataPool (Some 1))"
    by (simp_all add: SimpleDataPool_def)
  have bk: "bank (SimpleDataPool (Some 1)) = []" "m_size (SimpleDataPool (Some 1)) = 0"
    "m_ncreated (SimpleDataPool (Some 1)) = 0" "m_capacity (SimpleDataPool (Some 1)) = 0"
    by (simp_all add: bank_def SimpleDataPool_def)
  have up: "map (create_result env_ok 1) [n_create world0 ..< n_create world0 + unat (5 - 0 :: 32 word)]
              = [100, 101, 102, 103, 104]"
    by (simp add: env_ok_def world0_def upt_rec)
  from Reserve_fills_from_old_capacity [OF a b c d, of 5] lt
  have 1: "\<exists>p' w'. Reserve env_ok 5 (SimpleDataPool (Some 1)) world0 = Inr (p', w') \<and>
      m_size p' = 5 \<and> m_ncreated p' = 5 \<and> bank p' = [100, 101, 102, 103, 104]"
    unfolding bk using up by auto
  from Reserve_fills_from_old_capacity [OF a b c d, of 0] le
  have 2: "Reserve env_ok 0 (SimpleDataPool (Some 1)) world0 = Inr (SimpleDataPool (Some 1), world0)"
    by simp
  from a b c d lt le 1 2 show ?thesis
    by simp
qed

section \<open>Reset\<close>

text \<open>
  C3, as stated: after \<^verbatim>\<open>Reset\<close> every handle that was banked has been destroyed
  exactly once. The pool does not keep a handle from being banked twice: after
  \<^verbatim>\<open>Reserve(2)\<close>, two \<^verbatim>\<open>Borrow\<close> calls and two \<^verbatim>\<open>Return\<close> calls of the handle 100
  the bank is 100, 100, a state that satisfies the invariant, and \<^verbatim>\<open>Reset\<close> calls
  \<^verbatim>\<open>DestroyData\<close> on 100 twice.
\<close>

theorem Reset_destroys_twice_banked_twice:
  "run env_ok [OpReserve 2, OpBorrow, OpBorrow, OpReturn 100, OpReturn 100]
     (SimpleDataPool (Some 1), world0) =
     Inr (\<lparr>m_capacity = 2, m_size = 2, m_ncreated = 2,
           m_pool = Some [Some 100, Some 100], m_factory = Some 1\<rparr>,
          \<lparr>n_create = 2, n_malloc = 1, trace = [CreateData 1 100, CreateData 1 101]\<rparr>) \<and>
   pool_inv \<lparr>m_capacity = 2, m_size = 2, m_ncreated = 2,
             m_pool = Some [Some 100, Some 100], m_factory = Some 1\<rparr> \<and>
   bank \<lparr>m_capacity = 2, m_size = 2, m_ncreated = 2,
         m_pool = Some [Some 100, Some 100], m_factory = Some 1\<rparr> = [100, 100] \<and>
   Reset None
     \<lparr>m_capacity = 2, m_size = 2, m_ncreated = 2,
      m_pool = Some [Some 100, Some 100], m_factory = Some 1\<rparr>
     \<lparr>n_create = 2, n_malloc = 1, trace = [CreateData 1 100, CreateData 1 101]\<rparr> =
     Inr (SimpleDataPool None,
          \<lparr>n_create = 2, n_malloc = 1,
           trace = [CreateData 1 100, CreateData 1 101, DestroyData 1 100, DestroyData 1 100]\<rparr>)"
proof -
  have rep: "replicate 2 (None :: slot) = [None, None]"
    by (simp add: numeral_2_eq_2)
  have tk: "take 2 [Some (100 :: handle), Some 100] = [Some 100, Some 100]"
    by simp
  show ?thesis
    by (simp add: rep tk Reserve_def Return_def Borrow_def Reset_def SimpleDataPool_def env_ok_def
        world0_def Reserve_new_cap_def install_buffer_def call_CreateData_def
        call_DestroyData_def push_slot_def read_slot_def pool_inv_def bank_def
        reserve_loop.simps destroy_loop.simps)
qed

text \<open>
  C3, amended: for a pool that satisfies the invariant, \<^verbatim>\<open>Reset(newFactory)\<close> returns
  the state of a pool freshly constructed over \<open>newFactory\<close> (capacity, size and
  creation counter 0, no buffer). If the old factory was non-null, the calls it appends
  to the trace are exactly one \<^verbatim>\<open>DestroyData\<close> of the old factory per banked slot, in
  index order, so a handle is destroyed as often as it was banked: exactly once when
  the bank holds no handle twice. If the old factory was null, nothing is called. No
  handle is constructed. A \<^verbatim>\<open>Borrow\<close> that follows calls \<^verbatim>\<open>CreateData\<close> on the new
  factory.
\<close>

theorem Reset_drains_and_destroys:
  assumes inv: "pool_inv p"
  shows "\<exists>w'. Reset nf p w = Inr (SimpleDataPool nf, w') \<and>
           trace w' = trace w @
             (case m_factory p of None \<Rightarrow> [] | Some f \<Rightarrow> map (DestroyData f) (bank p)) \<and>
           n_create w' = n_create w \<and> n_malloc w' = n_malloc w \<and>
           (\<forall>f h. m_factory p = Some f \<longrightarrow>
              count_list (drop (length (trace w)) (trace w')) (DestroyData f h) =
              count_list (bank p) h) \<and>
           (\<forall>f h. m_factory p = Some f \<longrightarrow> distinct (bank p) \<longrightarrow> h \<in> set (bank p) \<longrightarrow>
              count_list (drop (length (trace w)) (trace w')) (DestroyData f h) = 1) \<and>
           m_capacity (SimpleDataPool nf) = 0 \<and> m_size (SimpleDataPool nf) = 0 \<and>
           m_ncreated (SimpleDataPool nf) = 0 \<and> m_pool (SimpleDataPool nf) = None \<and>
           m_factory (SimpleDataPool nf) = nf \<and>
           (\<forall>g. nf = Some g \<longrightarrow>
              (\<exists>p''. Borrow e (SimpleDataPool nf) w' =
                 Inr (create_result e g (n_create w'), p'',
                      w'\<lparr>n_create := n_create w' + 1,
                         trace := trace w' @ [CreateData g (create_result e g (n_create w'))]\<rparr>)))"
proof -
  let ?w' = "w\<lparr>trace := trace w @
                (case m_factory p of None \<Rightarrow> [] | Some f \<Rightarrow> map (DestroyData f) (bank p))\<rparr>"
  have r: "Reset nf p w = Inr (SimpleDataPool nf, ?w')"
    using inv by (rule Reset_ok)
  have c: "count_list (drop (length (trace w)) (trace ?w')) (DestroyData f h) = count_list (bank p) h"
    if "m_factory p = Some f" for f h
    using that by (simp add: count_destroyed)
  have d: "count_list (drop (length (trace w)) (trace ?w')) (DestroyData f h) = 1"
    if "m_factory p = Some f" "distinct (bank p)" "h \<in> set (bank p)" for f h
    using that by (simp add: count_destroyed count_list_distinct)
  have z: "m_size (SimpleDataPool nf) = 0"
    by (simp add: SimpleDataPool_def)
  have b: "\<exists>p''. Borrow e (SimpleDataPool nf) ?w' =
             Inr (create_result e g (n_create ?w'), p'',
                  ?w'\<lparr>n_create := n_create ?w' + 1,
                      trace := trace ?w' @ [CreateData g (create_result e g (n_create ?w'))]\<rparr>)"
    if "nf = Some g" for g
  proof -
    have "m_factory (SimpleDataPool nf) = Some g"
      using that by (simp add: SimpleDataPool_def)
    then show ?thesis
      by (simp add: Borrow_miss [OF z])
  qed
  show ?thesis
    using r c d b by (intro exI [of _ ?w']) (simp add: SimpleDataPool_def)
qed

text \<open>
  C3, amended, at a pool of capacity 3 that banks the distinct handles 100 and 101 of
  factory 1, reset to factory 2.
\<close>

theorem Reset_drains_and_destroys_witness:
  "pool_inv \<lparr>m_capacity = 3, m_size = 2, m_ncreated = 2,
             m_pool = Some [Some 100, Some 101, None], m_factory = Some 1\<rparr> \<and>
   distinct (bank \<lparr>m_capacity = 3, m_size = 2, m_ncreated = 2,
             m_pool = Some [Some 100, Some 101, None], m_factory = Some 1\<rparr>) \<and>
   101 \<in> set (bank \<lparr>m_capacity = 3, m_size = 2, m_ncreated = 2,
             m_pool = Some [Some 100, Some 101, None], m_factory = Some 1\<rparr>) \<and>
   (\<exists>w'. Reset (Some 2)
            \<lparr>m_capacity = 3, m_size = 2, m_ncreated = 2,
             m_pool = Some [Some 100, Some 101, None], m_factory = Some 1\<rparr> world0 =
            Inr (SimpleDataPool (Some 2), w') \<and>
          trace w' = [DestroyData 1 100, DestroyData 1 101] \<and>
          count_list (drop (length (trace world0)) (trace w')) (DestroyData 1 101) = 1 \<and>
          (\<exists>p''. Borrow env_ok (SimpleDataPool (Some 2)) w' =
             Inr (100, p'', w'\<lparr>n_create := 1, trace := trace w' @ [CreateData 2 100]\<rparr>)))"
proof -
  let ?p = "\<lparr>m_capacity = 3, m_size = 2, m_ncreated = 2,
             m_pool = Some [Some 100, Some 101, None], m_factory = Some 1\<rparr>"
  have a: "pool_inv ?p"
    by (simp add: pool_inv_def)
  have bk: "bank ?p = [100, 101]"
    by (simp add: bank_def)
  have f: "m_factory ?p = Some 1"
    by simp
  have d: "distinct (bank ?p)" and m: "101 \<in> set (bank ?p)"
    unfolding bk by simp_all
  from Reset_drains_and_destroys [OF a, of "Some 2" world0 env_ok]
  obtain w' where w: "Reset (Some 2) ?p world0 = Inr (SimpleDataPool (Some 2), w')"
    "trace w' = trace world0 @ map (DestroyData 1) (bank ?p)" "n_create w' = n_create world0"
    and once: "\<forall>f h. m_factory ?p = Some f \<longrightarrow> distinct (bank ?p) \<longrightarrow> h \<in> set (bank ?p) \<longrightarrow>
              count_list (drop (length (trace world0)) (trace w')) (DestroyData f h) = 1"
    and bo: "\<forall>g. Some 2 = Some g \<longrightarrow>
              (\<exists>p''. Borrow env_ok (SimpleDataPool (Some 2)) w' =
                 Inr (create_result env_ok g (n_create w'), p'',
                      w'\<lparr>n_create := n_create w' + 1,
                         trace := trace w' @ [CreateData g (create_result env_ok g (n_create w'))]\<rparr>))"
    by auto
  from once f d m have c: "count_list (drop (length (trace world0)) (trace w')) (DestroyData 1 101) = 1"
    by blast
  from bo obtain p'' where "Borrow env_ok (SimpleDataPool (Some 2)) w' =
                 Inr (create_result env_ok 2 (n_create w'), p'',
                      w'\<lparr>n_create := n_create w' + 1,
                         trace := trace w' @ [CreateData 2 (create_result env_ok 2 (n_create w'))]\<rparr>)"
    by blast
  with w bk a d m c show ?thesis
    by (intro conjI exI [of _ w'] exI [of _ p'']) (simp_all add: world0_def env_ok_def)
qed

section \<open>Borrow and Return\<close>

text \<open>
  C4. For a pool that satisfies the invariant, \<^verbatim>\<open>Borrow\<close> returns a null handle if
  and only if the bank is empty and the call of \<^verbatim>\<open>CreateData\<close> on the factory returns
  null. When the bank is not empty, \<^verbatim>\<open>Borrow\<close> returns the handle at index
  \<open>size - 1\<close>, which is not null, removes it from the bank, and leaves the world as it
  was: no factory call is made.
\<close>

theorem Borrow_null_iff_factory_fails:
  assumes inv: "pool_inv p"
  shows "((\<exists>p' w'. Borrow e p w = Inr (0, p', w')) =
          (m_size p = 0 \<and> (\<exists>f. m_factory p = Some f \<and> create_result e f (n_create w) = 0))) \<and>
         (m_size p \<noteq> 0 \<longrightarrow>
            Borrow e p w = Inr (bank p ! (unat (m_size p) - 1), p\<lparr>m_size := m_size p - 1\<rparr>, w) \<and>
            bank p ! (unat (m_size p) - 1) \<noteq> 0 \<and>
            bank (p\<lparr>m_size := m_size p - 1\<rparr>) = butlast (bank p))"
proof (cases "m_size p = 0")
  case True
  then show ?thesis
    by (auto simp: Borrow_miss split: option.splits)
next
  case False
  note hit = Borrow_hit [OF inv False]
  from hit(1) [of e w] hit(3-5) False show ?thesis
    by auto
qed

text \<open>C4 at a pool that banks 100 and 101: \<^verbatim>\<open>Borrow\<close> returns 101.\<close>

theorem Borrow_null_iff_factory_fails_witness:
  "pool_inv \<lparr>m_capacity = 3, m_size = 2, m_ncreated = 2,
             m_pool = Some [Some 100, Some 101, None], m_factory = Some 1\<rparr> \<and>
   Borrow env_ok \<lparr>m_capacity = 3, m_size = 2, m_ncreated = 2,
             m_pool = Some [Some 100, Some 101, None], m_factory = Some 1\<rparr> world0 =
     Inr (101, \<lparr>m_capacity = 3, m_size = 1, m_ncreated = 2,
             m_pool = Some [Some 100, Some 101, None], m_factory = Some 1\<rparr>, world0)"
proof -
  let ?p = "\<lparr>m_capacity = 3, m_size = 2, m_ncreated = 2,
             m_pool = Some [Some 100, Some 101, None], m_factory = Some 1\<rparr>"
  have a: "pool_inv ?p"
    by (simp add: pool_inv_def)
  have bk: "bank ?p = [100, 101]"
    by (simp add: bank_def)
  from Borrow_null_iff_factory_fails [OF a, of env_ok world0, unfolded bk] a show ?thesis
    by simp
qed

text \<open>
  C5. A \<^verbatim>\<open>Return(h)\<close> of a handle obtained by \<^verbatim>\<open>Borrow\<close>, followed at once by
  \<^verbatim>\<open>Borrow\<close>, should yield \<open>h\<close> in every pool state when the allocator does not
  fail. On the code it does not at a full bank of capacity 1: a fresh pool hands out
  the handle 100 by \<^verbatim>\<open>Borrow\<close>, \<^verbatim>\<open>Reserve(1)\<close> then leaves capacity 1 and size 1, a
  state that satisfies the invariant, and \<^verbatim>\<open>Return(100)\<close>, whose allocation succeeds,
  does not bank the handle but writes it beyond the one-slot buffer.
\<close>

theorem Return_overrun_breaks_roundtrip:
  "Borrow env_ok (SimpleDataPool (Some 1)) world0 =
     Inr (100,
          \<lparr>m_capacity = 0, m_size = 0, m_ncreated = 1, m_pool = None, m_factory = Some 1\<rparr>,
          \<lparr>n_create = 1, n_malloc = 0, trace = [CreateData 1 100]\<rparr>) \<and>
   run env_ok [OpBorrow, OpReserve 1] (SimpleDataPool (Some 1), world0) =
     Inr (\<lparr>m_capacity = 1, m_size = 1, m_ncreated = 2, m_pool = Some [Some 101],
           m_factory = Some 1\<rparr>,
          \<lparr>n_create = 2, n_malloc = 1, trace = [CreateData 1 100, CreateData 1 101]\<rparr>) \<and>
   pool_inv \<lparr>m_capacity = 1, m_size = 1, m_ncreated = 2, m_pool = Some [Some 101],
             m_factory = Some 1\<rparr> \<and>
   malloc_ok env_ok 1 \<and>
   Return env_ok 100
     \<lparr>m_capacity = 1, m_size = 1, m_ncreated = 2, m_pool = Some [Some 101],
      m_factory = Some 1\<rparr>
     \<lparr>n_create = 2, n_malloc = 1, trace = [CreateData 1 100, CreateData 1 101]\<rparr> =
     Inl OutOfBounds"
  by (simp add: Reserve_def Return_def Borrow_def SimpleDataPool_def env_ok_def world0_def
      Reserve_new_cap_def Return_new_cap_def install_buffer_def call_CreateData_def
      push_slot_def memcpy_slots_def pool_inv_def reserve_loop.simps)

text \<open>
  C6, as stated: for every pool with \<open>size = capacity\<close>, a \<^verbatim>\<open>Return\<close> whose allocation
  fails destroys the handle, leaves it out of the bank and changes no field. With a null
  factory (a pool constructed over null, or reset to null) that \<^verbatim>\<open>Return\<close> calls
  \<^verbatim>\<open>DestroyData\<close> through the null pointer. And a handle that is already banked, and
  is returned a second time, is destroyed and still banked afterwards.
\<close>

theorem Return_allocation_failure_null_factory:
  "Return env_nomem 7 (SimpleDataPool None) world0 = Inl NullFactory \<and>
   Return env_nomem 100
     \<lparr>m_capacity = 1, m_size = 1, m_ncreated = 1, m_pool = Some [Some 100],
      m_factory = Some 1\<rparr> world0 =
     Inr (\<lparr>m_capacity = 1, m_size = 1, m_ncreated = 1, m_pool = Some [Some 100],
           m_factory = Some 1\<rparr>,
          \<lparr>n_create = 0, n_malloc = 1, trace = [DestroyData 1 100]\<rparr>) \<and>
   bank \<lparr>m_capacity = 1, m_size = 1, m_ncreated = 1, m_pool = Some [Some 100],
         m_factory = Some 1\<rparr> = [100]"
  by (simp add: Return_def SimpleDataPool_def env_nomem_def world0_def call_DestroyData_def
      bank_def)

text \<open>
  C6, amended: for every pool with \<open>size = capacity\<close> and a non-null factory, if
  \<^verbatim>\<open>Return(h)\<close> is called with a non-null \<open>h\<close> and the allocation fails, then
  \<^verbatim>\<open>DestroyData\<close> of the factory is called on \<open>h\<close> exactly once, no handle is
  constructed, and the pool is returned unchanged in every field; so \<open>h\<close> is in the
  bank afterwards only if it was banked already before the call.
\<close>

theorem Return_allocation_failure_destroys:
  assumes full: "m_capacity p = m_size p" and h: "h \<noteq> 0"
    and nomem: "\<not> malloc_ok e (n_malloc w)" and f: "m_factory p = Some f"
  shows "\<exists>p' w'. Return e h p w = Inr (p', w') \<and> p' = p \<and> bank p' = bank p \<and>
           trace w' = trace w @ [DestroyData f h] \<and> n_create w' = n_create w \<and>
           count_list (drop (length (trace w)) (trace w')) (DestroyData f h) = 1 \<and>
           (h \<in> set (bank p')) = (h \<in> set (bank p))"
  using Return_destroys [OF full h nomem] f by simp

text \<open>C6, amended, at a fresh pool over factory 1 with a failing allocator.\<close>

theorem Return_allocation_failure_destroys_witness:
  "m_capacity (SimpleDataPool (Some 1)) = m_size (SimpleDataPool (Some 1)) \<and> (7 :: handle) \<noteq> 0 \<and>
   \<not> malloc_ok env_nomem (n_malloc world0) \<and> m_factory (SimpleDataPool (Some 1)) = Some 1 \<and>
   (\<exists>w'. Return env_nomem 7 (SimpleDataPool (Some 1)) world0 = Inr (SimpleDataPool (Some 1), w') \<and>
      trace w' = [DestroyData 1 7]) \<and>
   7 \<notin> set (bank (SimpleDataPool (Some 1)))"
proof -
  have a: "m_capacity (SimpleDataPool (Some 1)) = m_size (SimpleDataPool (Some 1))"
    and b: "(7 :: handle) \<noteq> 0"
    and c: "\<not> malloc_ok env_nomem (n_malloc world0)"
    and d: "m_factory (SimpleDataPool (Some 1)) = Some 1"
    and t: "trace world0 = []"
    and n: "7 \<notin> set (bank (SimpleDataPool (Some 1)))"
    by (simp_all add: SimpleDataPool_def env_nomem_def world0_def bank_def)
  from Return_allocation_failure_destroys [OF a b c d] a b c d n show ?thesis
    unfolding t by auto
qed

section \<open>The creation counter\<close>

text \<open>
  C7, as stated: the reported \<^verbatim>\<open>ncreated\<close> equals the number of \<^verbatim>\<open>CreateData\<close> calls
  that produced a handle, and never decreases. The counter is a 32-bit \<^verbatim>\<open>unsigned\<close>:
  at 4294967295 the next successful construction sets it to 0, and 4294967296
  successful \<^verbatim>\<open>Borrow\<close> calls on a fresh pool with an empty bank leave it at 0.
\<close>

theorem created_count_wraps:
  "Borrow env_ok \<lparr>m_capacity = 0, m_size = 0, m_ncreated = 4294967295, m_pool = None,
                   m_factory = Some 1\<rparr> world0 =
     Inr (100,
          \<lparr>m_capacity = 0, m_size = 0, m_ncreated = 0, m_pool = None, m_factory = Some 1\<rparr>,
          \<lparr>n_create = 1, n_malloc = 0, trace = [CreateData 1 100]\<rparr>) \<and>
   map_sum id accounting
     (run env_ok (replicate 4294967296 OpBorrow) (SimpleDataPool (Some 1), world0)) =
     Inr (\<lparr>nfree = 0, ncreated = 0\<rparr>, 4294967296)"
proof -
  have ok: "\<forall>j. create_result env_ok 1 j \<noteq> 0"
    by (simp add: env_ok_def)
  have z: "m_size (SimpleDataPool (Some 1)) = 0" "m_factory (SimpleDataPool (Some 1)) = Some 1"
    "m_ncreated (SimpleDataPool (Some 1)) = 0" "created_ok (trace world0) = 0"
    by (simp_all add: SimpleDataPool_def world0_def)
  have w: "(0 :: 32 word) + of_nat 4294967296 = 0"
    by simp
  have 1: "Borrow env_ok \<lparr>m_capacity = 0, m_size = 0, m_ncreated = 4294967295, m_pool = None,
                   m_factory = Some 1\<rparr> world0 =
     Inr (100,
          \<lparr>m_capacity = 0, m_size = 0, m_ncreated = 0, m_pool = None, m_factory = Some 1\<rparr>,
          \<lparr>n_create = 1, n_malloc = 0, trace = [CreateData 1 100]\<rparr>)"
    by (simp add: Borrow_def call_CreateData_def env_ok_def world0_def)
  from run_Borrow_accounting [OF ok z(1,2), of 4294967296 world0]
  have 2: "map_sum id accounting
     (run env_ok (replicate 4294967296 OpBorrow) (SimpleDataPool (Some 1), world0)) =
     Inr (\<lparr>nfree = 0, ncreated = 0\<rparr>, 4294967296)"
    unfolding z w by (simp only: add_0)
  from 1 2 show ?thesis
    by (rule conjI)
qed

text \<open>
  C7, amended: over every sequence of \<^verbatim>\<open>Reserve\<close>, \<^verbatim>\<open>Borrow\<close> and \<^verbatim>\<open>Return\<close>
  that completes, the trace grows by some events, and the reported \<^verbatim>\<open>ncreated\<close>
  grows, modulo \<open>2 ^ 32\<close>, by the number of \<^verbatim>\<open>CreateData\<close> calls among them that
  produced a handle. While the count stays below \<open>2 ^ 32\<close> the counter equals it
  exactly and does not decrease.
\<close>

theorem created_count_accounting:
  assumes r: "run e xs (p, w) = Inr (p', w')"
  shows "\<exists>evs. trace w' = trace w @ evs \<and>
           ncreated (stat p') = ncreated (stat p) + of_nat (created_ok evs) \<and>
           (unat (ncreated (stat p)) + created_ok evs < 2 ^ 32 \<longrightarrow>
              unat (ncreated (stat p')) = unat (ncreated (stat p)) + created_ok evs \<and>
              ncreated (stat p) \<le> ncreated (stat p'))"
proof -
  from run_accounts [OF r] obtain evs where
    evs: "trace w' = trace w @ evs" "m_ncreated p' = m_ncreated p + of_nat (created_ok evs)"
    by blast
  have "unat (m_ncreated p') = unat (m_ncreated p) + created_ok evs"
    if "unat (m_ncreated p) + created_ok evs < 2 ^ 32"
    unfolding evs(2) using that by (rule unat_add_of_nat)
  then show ?thesis
    using evs by (intro exI [of _ evs]) (simp add: stat_def word_le_nat_alt)
qed

text \<open>
  C7, amended, at a fresh pool: \<^verbatim>\<open>Reserve(2)\<close> constructs two handles, two
  \<^verbatim>\<open>Borrow\<close> calls take them and the third constructs one more.
\<close>

theorem created_count_accounting_witness:
  "run env_ok [OpReserve 2, OpBorrow, OpBorrow, OpBorrow] (SimpleDataPool (Some 1), world0) =
     Inr (\<lparr>m_capacity = 2, m_size = 0, m_ncreated = 3, m_pool = Some [Some 100, Some 101],
           m_factory = Some 1\<rparr>,
          \<lparr>n_create = 3, n_malloc = 1,
           trace = [CreateData 1 100, CreateData 1 101, CreateData 1 102]\<rparr>) \<and>
   created_ok [CreateData 1 100, CreateData 1 101, CreateData 1 102] = 3 \<and>
   unat (ncreated (stat (SimpleDataPool (Some 1)))) + 3 < (2 :: nat) ^ 32 \<and>
   unat (ncreated (stat \<lparr>m_capacity = 2, m_size = 0, m_ncreated = 3,
                         m_pool = Some [Some 100, Some 101], m_factory = Some 1\<rparr>)) = 3"
proof -
  have r: "run env_ok [OpReserve 2, OpBorrow, OpBorrow, OpBorrow] (SimpleDataPool (Some 1), world0) =
     Inr (\<lparr>m_capacity = 2, m_size = 0, m_ncreated = 3, m_pool = Some [Some 100, Some 101],
           m_factory = Some 1\<rparr>,
          \<lparr>n_create = 3, n_malloc = 1,
           trace = [CreateData 1 100, CreateData 1 101, CreateData 1 102]\<rparr>)"
  proof -
    have "replicate 2 (None :: slot) = [None, None]"
      by (simp add: numeral_2_eq_2)
    then show ?thesis
      by (simp add: Reserve_def Borrow_def SimpleDataPool_def env_ok_def world0_def
          Reserve_new_cap_def install_buffer_def call_CreateData_def push_slot_def read_slot_def
          reserve_loop.simps)
  qed
  from created_count_accounting [OF r] r show ?thesis
    by (auto simp: world0_def stat_def SimpleDataPool_def)
qed

section \<open>The concrete scenario\<close>

text \<open>
  C8. A fresh pool over a factory that always succeeds, with an allocator that grants
  the buffer of \<^verbatim>\<open>Reserve(5)\<close>: after \<^verbatim>\<open>Reserve(5)\<close> the statistics are
  \<open>nfree = 5\<close>, \<open>ncreated = 5\<close>; after three \<^verbatim>\<open>Borrow\<close> calls \<open>nfree = 2\<close>,
  \<open>ncreated = 5\<close>; after the \<^verbatim>\<open>Return\<close> of any one of the three borrowed handles
  \<open>nfree = 3\<close>; one more \<^verbatim>\<open>Borrow\<close> returns that handle and leaves \<open>nfree = 2\<close>.
  The world after \<^verbatim>\<open>Reserve\<close> stays as it is: no later step calls the factory or
  the allocator.
\<close>

theorem concrete_scenario:
  assumes ok: "\<forall>k. create_result e f k \<noteq> 0" and mal: "malloc_ok e (n_malloc w)"
  shows "\<exists>p1 w1 h1 p2 h2 p3 h3 p4.
     Reserve e 5 (SimpleDataPool (Some f)) w = Inr (p1, w1) \<and>
     stat p1 = \<lparr>nfree = 5, ncreated = 5\<rparr> \<and>
     Borrow e p1 w1 = Inr (h1, p2, w1) \<and>
     Borrow e p2 w1 = Inr (h2, p3, w1) \<and>
     Borrow e p3 w1 = Inr (h3, p4, w1) \<and>
     stat p4 = \<lparr>nfree = 2, ncreated = 5\<rparr> \<and>
     (\<forall>h \<in> {h1, h2, h3}.
        \<exists>p5 p6. Return e h p4 w1 = Inr (p5, w1) \<and> stat p5 = \<lparr>nfree = 3, ncreated = 5\<rparr> \<and>
          Borrow e p5 w1 = Inr (h, p6, w1) \<and> stat p6 = \<lparr>nfree = 2, ncreated = 5\<rparr>)"
proof -
  let ?p0 = "SimpleDataPool (Some f)"
  have p0: "pool_inv ?p0" "m_factory ?p0 = Some f" "m_capacity ?p0 < 5"
    by (simp_all add: pool_inv_def SimpleDataPool_def)
  have z: "m_size ?p0 = 0" "m_ncreated ?p0 = 0" "m_capacity ?p0 = 0"
    by (simp_all add: SimpleDataPool_def)
  from Reserve_ok [OF p0 mal ok] obtain p1 w1 where
    r: "Reserve e 5 ?p0 w = Inr (p1, w1)" and i1: "pool_inv p1"
      and f1: "m_capacity p1 = Reserve_new_cap (m_capacity ?p0) 5"
        "m_size p1 = m_size ?p0 + (5 - m_capacity ?p0)"
        "m_ncreated p1 = m_ncreated ?p0 + (5 - m_capacity ?p0)"
    by blast
  from f1 have p1: "m_capacity p1 = 5" "m_size p1 = 5" "m_ncreated p1 = 5"
    unfolding z by (simp_all add: Reserve_new_cap_def)
  have "m_size p1 \<noteq> 0"
    by (simp add: p1)
  from Borrow_pops [OF i1 this, of e w1] obtain h1 p2 where
    b1: "Borrow e p1 w1 = Inr (h1, p2, w1)" and h1: "h1 \<noteq> 0" and i2: "pool_inv p2"
      and p2: "m_size p2 = 4" "m_ncreated p2 = 5" "m_capacity p2 = 5"
    unfolding p1 by auto
  have "m_size p2 \<noteq> 0"
    by (simp add: p2)
  from Borrow_pops [OF i2 this, of e w1] obtain h2 p3 where
    b2: "Borrow e p2 w1 = Inr (h2, p3, w1)" and h2: "h2 \<noteq> 0" and i3: "pool_inv p3"
      and p3: "m_size p3 = 3" "m_ncreated p3 = 5" "m_capacity p3 = 5"
    unfolding p2 by auto
  have "m_size p3 \<noteq> 0"
    by (simp add: p3)
  from Borrow_pops [OF i3 this, of e w1] obtain h3 p4 where
    b3: "Borrow e p3 w1 = Inr (h3, p4, w1)" and h3: "h3 \<noteq> 0" and i4: "pool_inv p4"
      and p4: "m_size p4 = 2" "m_ncreated p4 = 5" "m_capacity p4 = 5"
    unfolding p3 by auto
  have lt: "m_size p4 < m_capacity p4"
    by (simp add: p4)
  have rt: "\<exists>p5 p6. Return e h p4 w1 = Inr (p5, w1) \<and> stat p5 = \<lparr>nfree = 3, ncreated = 5\<rparr> \<and>
          Borrow e p5 w1 = Inr (h, p6, w1) \<and> stat p6 = \<lparr>nfree = 2, ncreated = 5\<rparr>"
    if "h \<noteq> 0" for h
    using Return_Borrow_within_capacity [OF i4 that lt, of e w1] unfolding p4 stat_def by simp
  have s1: "stat p1 = \<lparr>nfree = 5, ncreated = 5\<rparr>" and s4: "stat p4 = \<lparr>nfree = 2, ncreated = 5\<rparr>"
    by (simp_all add: stat_def p1 p4)
  have "\<forall>h \<in> {h1, h2, h3}.
        \<exists>p5 p6. Return e h p4 w1 = Inr (p5, w1) \<and> stat p5 = \<lparr>nfree = 3, ncreated = 5\<rparr> \<and>
          Borrow e p5 w1 = Inr (h, p6, w1) \<and> stat p6 = \<lparr>nfree = 2, ncreated = 5\<rparr>"
    using rt [OF h1] rt [OF h2] rt [OF h3] by simp
  with r s1 b1 b2 b3 s4 show ?thesis
    by blast
qed

text \<open>C8 for the factory whose handles are 100, 101, ..., returning the second handle borrowed.\<close>

theorem concrete_scenario_witness:
  "(\<forall>k. create_result env_ok 1 k \<noteq> 0) \<and> malloc_ok env_ok (n_malloc world0) \<and>
   (\<exists>p1 w1 h1 p2 h2 p3 h3 p4.
     Reserve env_ok 5 (SimpleDataPool (Some 1)) world0 = Inr (p1, w1) \<and>
     stat p1 = \<lparr>nfree = 5, ncreated = 5\<rparr> \<and>
     Borrow env_ok p1 w1 = Inr (h1, p2, w1) \<and>
     Borrow env_ok p2 w1 = Inr (h2, p3, w1) \<and>
     Borrow env_ok p3 w1 = Inr (h3, p4, w1) \<and>
     stat p4 = \<lparr>nfree = 2, ncreated = 5\<rparr> \<and>
     (\<exists>p5 p6. Return env_ok h2 p4 w1 = Inr (p5, w1) \<and> stat p5 = \<lparr>nfree = 3, ncreated = 5\<rparr> \<and>
          Borrow env_ok p5 w1 = Inr (h2, p6, w1) \<and> stat p6 = \<lparr>nfree = 2, ncreated = 5\<rparr>))"
proof -
  have a: "\<forall>k. create_result env_ok 1 k \<noteq> 0" and b: "malloc_ok env_ok (n_malloc world0)"
    by (simp_all add: env_ok_def)
  from concrete_scenario [OF a b] obtain p1 w1 h1 p2 h2 p3 h3 p4 where
    s: "Reserve env_ok 5 (SimpleDataPool (Some 1)) world0 = Inr (p1, w1)"
      "stat p1 = \<lparr>nfree = 5, ncreated = 5\<rparr>"
      "Borrow env_ok p1 w1 = Inr (h1, p2, w1)"
      "Borrow env_ok p2 w1 = Inr (h2, p3, w1)"
      "Borrow env_ok p3 w1 = Inr (h3, p4, w1)"
      "stat p4 = \<lparr>nfree = 2, ncreated = 5\<rparr>"
    and t: "\<forall>h \<in> {h1, h2, h3}.
        \<exists>p5 p6. Return env_ok h p4 w1 = Inr (p5, w1) \<and> stat p5 = \<lparr>nfree = 3, ncreated = 5\<rparr> \<and>
          Borrow env_ok p5 w1 = Inr (h, p6, w1) \<and> stat p6 = \<lparr>nfree = 2, ncreated = 5\<rparr>"
    by blast
  from t have "\<exists>p5 p6. Return env_ok h2 p4 w1 = Inr (p5, w1) \<and> stat p5 = \<lparr>nfree = 3, ncreated = 5\<rparr> \<and>
          Borrow env_ok p5 w1 = Inr (h2, p6, w1) \<and> stat p6 = \<lparr>nfree = 2, ncreated = 5\<rparr>"
    by simp
  with s a b show ?thesis
    by blast
qed

section \<open>The factory pointer\<close>

text \<open>
  C10. \<^verbatim>\<open>Borrow\<close> on an empty bank, \<^verbatim>\<open>Reserve(n)\<close> with \<open>capacity < n\<close> once the
  buffer is allocated, and \<^verbatim>\<open>Return\<close> on a full bank whose allocation fails call the
  factory without testing the pointer: with a null factory each of them is a call
  through a null pointer, and with a non-null factory each of them completes.
\<close>

theorem factory_calls_need_factory:
  "(m_size p = 0 \<and> m_factory p = None \<longrightarrow> Borrow e p w = Inl NullFactory) \<and>
   (pool_inv p \<and> m_capacity p < n \<and> malloc_ok e (n_malloc w) \<and> m_factory p = None \<longrightarrow>
      Reserve e n p w = Inl NullFactory) \<and>
   (h \<noteq> 0 \<and> m_capacity p = m_size p \<and> \<not> malloc_ok e (n_malloc w) \<and> m_factory p = None \<longrightarrow>
      Return e h p w = Inl NullFactory) \<and>
   (m_size p = 0 \<and> m_factory p = Some f \<longrightarrow> (\<exists>d p' w'. Borrow e p w = Inr (d, p', w'))) \<and>
   (pool_inv p \<and> m_capacity p < n \<and> m_factory p = Some f \<longrightarrow>
      (\<exists>p' w'. Reserve e n p w = Inr (p', w'))) \<and>
   (h \<noteq> 0 \<and> m_capacity p = m_size p \<and> \<not> malloc_ok e (n_malloc w) \<and> m_factory p = Some f \<longrightarrow>
      (\<exists>w'. Return e h p w = Inr (p, w')))"
proof (intro conjI impI; elim conjE)
  assume "m_size p = 0" "m_factory p = None"
  then show "Borrow e p w = Inl NullFactory"
    by (simp add: Borrow_miss)
next
  assume "pool_inv p" "m_capacity p < n" "malloc_ok e (n_malloc w)" "m_factory p = None"
  then show "Reserve e n p w = Inl NullFactory"
    by (simp add: Reserve_null_factory)
next
  assume "h \<noteq> 0" "m_capacity p = m_size p" "\<not> malloc_ok e (n_malloc w)" "m_factory p = None"
  then show "Return e h p w = Inl NullFactory"
    by (simp add: Return_destroys)
next
  assume "m_size p = 0" "m_factory p = Some f"
  then show "\<exists>d p' w'. Borrow e p w = Inr (d, p', w')"
    by (simp add: Borrow_miss)
next
  assume "h \<noteq> 0" "m_capacity p = m_size p" "\<not> malloc_ok e (n_malloc w)" "m_factory p = Some f"
  then show "\<exists>w'. Return e h p w = Inr (p, w')"
    by (simp add: Return_destroys)
next
  assume "pool_inv p" "m_capacity p < n" "m_factory p = Some f"
  from Reserve_safe [OF this, of e w] show "\<exists>p' w'. Reserve e n p w = Inr (p', w')"
    by blast
qed

text \<open>C10 at fresh pools over a null factory and over factory 1.\<close>

theorem factory_calls_need_factory_witness:
  "Borrow env_ok (SimpleDataPool None) world0 = Inl NullFactory \<and>
   Reserve env_ok 5 (SimpleDataPool None) world0 = Inl NullFactory \<and>
   Return env_nomem 7 (SimpleDataPool None) world0 = Inl NullFactory \<and>
   (\<exists>d p' w'. Borrow env_ok (SimpleDataPool (Some 1)) world0 = Inr (d, p', w')) \<and>
   (\<exists>p' w'. Reserve env_ok 5 (SimpleDataPool (Some 1)) world0 = Inr (p', w')) \<and>
   (\<exists>w'. Return env_nomem 7 (SimpleDataPool (Some 1)) world0 = Inr (SimpleDataPool (Some 1), w'))"
proof -
  have z: "m_size (SimpleDataPool fo) = 0" "m_capacity (SimpleDataPool fo) < 5"
    "m_capacity (SimpleDataPool fo) = m_size (SimpleDataPool fo)" "m_factory (SimpleDataPool fo) = fo"
    for fo
    by (simp_all add: SimpleDataPool_def)
  have m: "malloc_ok env_ok (n_malloc world0)" "\<not> malloc_ok env_nomem (n_malloc world0)"
    "(7 :: handle) \<noteq> 0"
    by (simp_all add: env_ok_def env_nomem_def)
  note inv = pool_inv_fresh
  from factory_calls_need_factory [where p = "SimpleDataPool None" and e = env_ok and w = world0
      and n = 5 and h = 7 and f = 1]
    factory_calls_need_factory [where p = "SimpleDataPool None" and e = env_nomem and w = world0
      and n = 5 and h = 7 and f = 1]
    factory_calls_need_factory [where p = "SimpleDataPool (Some 1)" and e = env_ok and w = world0
      and n = 5 and h = 7 and f = 1]
    factory_calls_need_factory [where p = "SimpleDataPool (Some 1)" and e = env_nomem and w = world0
      and n = 5 and h = 7 and f = 1]
  show ?thesis
    using z m inv by simp
qed

end
